theory Spec2Isabelle
  imports Main "HOL-Library.Word" "HOL-Library.Multiset" "HOL-Library.Log_Nat"
begin

unbundle bit_operations_syntax

section \<open>Machine types\<close>

type_synonym u8 = "8 word"
type_synonym u16 = "16 word"
type_synonym u32 = "32 word"

section \<open>PixelCodec: 16-bit packed formats\<close>

subsection \<open>RGB565\<close>

text \<open>
  The unpack formulas of \<^verbatim>\<open>RGB565ToRGBA8888\<close>, computed in \<^verbatim>\<open>uint32_t\<close>:
  \<^verbatim>\<open>(r5 * 255 + 15) / 31\<close> and \<^verbatim>\<open>(g6 * 255 + 31) / 63\<close>.
\<close>

definition expand5 :: "u32 \<Rightarrow> u32" where
  "expand5 f = (f * 255 + 15) div 31"

definition expand6 :: "u32 \<Rightarrow> u32" where
  "expand6 f = (f * 255 + 31) div 63"

text \<open>
  Body of the loop of \<^verbatim>\<open>RGB565ToRGBA8888\<close> for one packed pixel \<open>c\<close>: first the
  four \<^verbatim>\<open>uint32_t\<close> values of the right-hand sides, then the four bytes written,
  where the store into \<^verbatim>\<open>uint8_t\<close> is the \<open>ucast\<close>.
\<close>

definition RGB565ToRGBA8888_exprs :: "u16 \<Rightarrow> u32 list" where
  "RGB565ToRGBA8888_exprs c =
     (let r5 = (drop_bit 11 (ucast c :: u32) AND 0x1f);
          g6 = (drop_bit 5 (ucast c :: u32) AND 0x3f);
          b5 = (drop_bit 0 (ucast c :: u32) AND 0x1f)
      in [expand5 r5, expand6 g6, expand5 b5, 255])"

definition RGB565ToRGBA8888_px :: "u16 \<Rightarrow> u8 list" where
  "RGB565ToRGBA8888_px c = map ucast (RGB565ToRGBA8888_exprs c)"

text \<open>
  Body of the loop of \<^verbatim>\<open>RGBA8888ToRGB565\<close>. The channels are promoted to
  \<^verbatim>\<open>int\<close> before the shift (here \<open>u32\<close>: the values are not negative and stay
  below \<open>2^16\<close>) and the result is stored into \<^verbatim>\<open>uint16_t\<close>.
\<close>

definition RGBA8888ToRGB565_px :: "u8 \<Rightarrow> u8 \<Rightarrow> u8 \<Rightarrow> u16" where
  "RGBA8888ToRGB565_px red green blue =
     (let r = (ucast (push_bit 11 (drop_bit 3 (ucast red :: u32) AND 0x1f)) :: u16);
          g = (ucast (push_bit 5 (drop_bit 2 (ucast green :: u32) AND 0x3f)) :: u16);
          b = (ucast (drop_bit 3 (ucast blue :: u32) AND 0x1f) :: u16)
      in r OR g OR b)"

text \<open>
  The loops run \<^verbatim>\<open>width*height\<close> times, the product taken in \<^verbatim>\<open>uint32_t\<close>.
  The input buffer is a list; reading past its end is undefined behaviour in C and
  \<open>None\<close> here. The result is the sequence of values written to the output buffer.
\<close>

fun RGB565ToRGBA8888_loop :: "nat \<Rightarrow> u16 list \<Rightarrow> u8 list option" where
  "RGB565ToRGBA8888_loop 0 data = Some []"
| "RGB565ToRGBA8888_loop (Suc n) [] = None"
| "RGB565ToRGBA8888_loop (Suc n) (c # data) =
     map_option (\<lambda>rest. RGB565ToRGBA8888_px c @ rest) (RGB565ToRGBA8888_loop n data)"

definition RGB565ToRGBA8888 :: "u16 list \<Rightarrow> u32 \<Rightarrow> u32 \<Rightarrow> u8 list option" where
  "RGB565ToRGBA8888 data width height = RGB565ToRGBA8888_loop (unat (width * height)) data"

fun RGBA8888ToRGB565_loop :: "nat \<Rightarrow> u8 list \<Rightarrow> u16 list option" where
  "RGBA8888ToRGB565_loop 0 data = Some []"
| "RGBA8888ToRGB565_loop (Suc n) (red # green # blue # alpha # data) =
     map_option (\<lambda>rest. RGBA8888ToRGB565_px red green blue # rest) (RGBA8888ToRGB565_loop n data)"
| "RGBA8888ToRGB565_loop (Suc n) _ = None"

definition RGBA8888ToRGB565 :: "u8 list \<Rightarrow> u32 \<Rightarrow> u32 \<Rightarrow> u16 list option" where
  "RGBA8888ToRGB565 data width height = RGBA8888ToRGB565_loop (unat (width * height)) data"

subsection \<open>RGBA4444\<close>

definition expand4 :: "u32 \<Rightarrow> u32" where
  "expand4 f = (f * 255 + 7) div 15"

definition RGBA4444ToRGBA8888_exprs :: "u16 \<Rightarrow> u32 list" where
  "RGBA4444ToRGBA8888_exprs c =
     (let r4 = (drop_bit 12 (ucast c :: u32) AND 0xf);
          g4 = (drop_bit 8 (ucast c :: u32) AND 0xf);
          b4 = (drop_bit 4 (ucast c :: u32) AND 0xf);
          a4 = (drop_bit 0 (ucast c :: u32) AND 0xf)
      in [expand4 r4, expand4 g4, expand4 b4, expand4 a4])"

definition RGBA4444ToRGBA8888_px :: "u16 \<Rightarrow> u8 list" where
  "RGBA4444ToRGBA8888_px c = map ucast (RGBA4444ToRGBA8888_exprs c)"

definition RGBA8888ToRGBA4444_px :: "u8 \<Rightarrow> u8 \<Rightarrow> u8 \<Rightarrow> u8 \<Rightarrow> u16" where
  "RGBA8888ToRGBA4444_px d0 d1 d2 d3 =
     (let r = (ucast (push_bit 12 (drop_bit 4 (ucast d0 :: u32))) :: u16);
          g = (ucast (push_bit 8 (drop_bit 4 (ucast d1 :: u32))) :: u16);
          b = (ucast (push_bit 4 (drop_bit 4 (ucast d2 :: u32))) :: u16);
          a = (ucast (push_bit 0 (drop_bit 4 (ucast d3 :: u32))) :: u16)
      in r OR g OR b OR a)"

fun RGBA4444ToRGBA8888_loop :: "nat \<Rightarrow> u16 list \<Rightarrow> u8 list option" where
  "RGBA4444ToRGBA8888_loop 0 data = Some []"
| "RGBA4444ToRGBA8888_loop (Suc n) [] = None"
| "RGBA4444ToRGBA8888_loop (Suc n) (c # data) =
     map_option (\<lambda>rest. RGBA4444ToRGBA8888_px c @ rest) (RGBA4444ToRGBA8888_loop n data)"

definition RGBA4444ToRGBA8888 :: "u16 list \<Rightarrow> u32 \<Rightarrow> u32 \<Rightarrow> u8 list option" where
  "RGBA4444ToRGBA8888 data width height = RGBA4444ToRGBA8888_loop (unat (width * height)) data"

fun RGBA8888ToRGBA4444_loop :: "nat \<Rightarrow> u8 list \<Rightarrow> u16 list option" where
  "RGBA8888ToRGBA4444_loop 0 data = Some []"
| "RGBA8888ToRGBA4444_loop (Suc n) (d0 # d1 # d2 # d3 # data) =
     map_option (\<lambda>rest. RGBA8888ToRGBA4444_px d0 d1 d2 d3 # rest) (RGBA8888ToRGBA4444_loop n data)"
| "RGBA8888ToRGBA4444_loop (Suc n) _ = None"

definition RGBA8888ToRGBA4444 :: "u8 list \<Rightarrow> u32 \<Rightarrow> u32 \<Rightarrow> u16 list option" where
  "RGBA8888ToRGBA4444 data width height = RGBA8888ToRGBA4444_loop (unat (width * height)) data"

section \<open>Single-precision floating point\<close>

text \<open>
  The program computes in \<^verbatim>\<open>float\<close> (IEEE 754 binary32). A finite \<^verbatim>\<open>float\<close> is a
  rational number; every operation returns the exact result rounded to the nearest
  number with a 24-bit significand, ties to even. The exponent is not bounded here:
  overflow to infinity and subnormal numbers are outside the model, as is NaN.
\<close>

type_synonym float = rat

text \<open>\<open>ilog2 q\<close> is the exponent \<open>e\<close> with \<open>2^e \<le> q < 2^(e+1)\<close>, for \<open>q > 0\<close>.\<close>

definition ilog2 :: "rat \<Rightarrow> int" where
  "ilog2 q = (if 1 \<le> q then bitlen \<lfloor>q\<rfloor> - 1 else - bitlen (\<lceil>1 / q\<rceil> - 1))"

text \<open>Rounding to the nearest integer, ties to the even one.\<close>

definition rne :: "rat \<Rightarrow> int" where
  "rne x = (let f = \<lfloor>x\<rfloor>; d = x - rat_of_int f
            in if d < 1 / 2 then f else if 1 / 2 < d then f + 1
               else if even f then f else f + 1)"

definition fl :: "rat \<Rightarrow> float" where
  "fl q = (if q = 0 then 0
           else let u = 2 powi (ilog2 \<bar>q\<bar> - 23) in rat_of_int (rne (q / u)) * u)"

definition fadd :: "float \<Rightarrow> float \<Rightarrow> float" where
  "fadd a b = fl (a + b)"

definition fsub :: "float \<Rightarrow> float \<Rightarrow> float" where
  "fsub a b = fl (a - b)"

definition fmul :: "float \<Rightarrow> float \<Rightarrow> float" where
  "fmul a b = fl (a * b)"

definition fdiv :: "float \<Rightarrow> float \<Rightarrow> float" where
  "fdiv a b = fl (a / b)"

text \<open>
  Conversions. From \<^verbatim>\<open>float\<close> to an integer type C discards the fraction; when the
  integral part does not fit the type the behaviour is undefined, \<open>None\<close> here.
\<close>

definition trunc0 :: "rat \<Rightarrow> int" where
  "trunc0 q = (if 0 \<le> q then \<lfloor>q\<rfloor> else \<lceil>q\<rceil>)"

definition float_to_int32 :: "float \<Rightarrow> 32 word option" where
  "float_to_int32 q =
     (if - (2 ^ 31) \<le> trunc0 q \<and> trunc0 q < 2 ^ 31 then Some (word_of_int (trunc0 q)) else None)"

definition float_to_int8 :: "float \<Rightarrow> 8 word option" where
  "float_to_int8 q =
     (if - 128 \<le> trunc0 q \<and> trunc0 q \<le> 127 then Some (word_of_int (trunc0 q)) else None)"

definition float_to_uint8 :: "rat \<Rightarrow> u8 option" where
  "float_to_uint8 q =
     (if 0 \<le> trunc0 q \<and> trunc0 q \<le> 255 then Some (word_of_int (trunc0 q)) else None)"

definition float_of_int32 :: "32 word \<Rightarrow> float" where
  "float_of_int32 i = fl (rat_of_int (sint i))"

definition float_of_uint32 :: "u32 \<Rightarrow> float" where
  "float_of_uint32 x = fl (rat_of_int (uint x))"

definition float_of_uint8 :: "u8 \<Rightarrow> float" where
  "float_of_uint8 x = fl (rat_of_int (uint x))"

text \<open>\<^verbatim>\<open>round\<close> of \<^verbatim>\<open>math.h\<close>: to the nearest integer, halfway cases away from zero.\<close>

definition c_round :: "rat \<Rightarrow> rat" where
  "c_round x = rat_of_int (if 0 \<le> x then \<lfloor>x + 1 / 2\<rfloor> else \<lceil>x - 1 / 2\<rceil>)"

section \<open>NoiseField\<close>

text \<open>\<^verbatim>\<open>fract\<close>: \<^verbatim>\<open>v - (int32_t)v\<close>, the integer converted back to \<^verbatim>\<open>float\<close>.\<close>

definition fract :: "float \<Rightarrow> float option" where
  "fract v = map_option (\<lambda>i. fsub v (float_of_int32 i)) (float_to_int32 v)"

text \<open>The three literals \<^verbatim>\<open>0.06711056f\<close>, \<^verbatim>\<open>0.00583715f\<close> and \<^verbatim>\<open>52.9829189f\<close>.\<close>

definition magic0 :: float where
  "magic0 = fl (6711056 / 100000000)"

definition magic1 :: float where
  "magic1 = fl (583715 / 100000000)"

definition magic2 :: float where
  "magic2 = fl (529829189 / 10000000)"

definition InterleavedGradientNoise :: "float \<Rightarrow> float \<Rightarrow> float option" where
  "InterleavedGradientNoise u v =
     (case fract (fadd (fmul u magic0) (fmul v magic1)) of
        None \<Rightarrow> None
      | Some f \<Rightarrow> fract (fmul magic2 f))"

section \<open>BayerMap\<close>

definition bayer4 :: "float list" where
  "bayer4 = [ 0,  8,  2, 10,
             12,  4, 14,  6,
              3, 11,  1,  9,
             15,  7, 13,  5]"

definition bayer8 :: "float list" where
  "bayer8 = [ 0, 32,  8, 40,  2, 34, 10, 42,
             48, 16, 56, 24, 50, 18, 58, 26,
             12, 44,  4, 36, 14, 46,  6, 38,
             60, 28, 52, 20, 62, 30, 54, 22,
              3, 35, 11, 43,  1, 33,  9, 41,
             51, 19, 59, 27, 49, 17, 57, 25,
             15, 47,  7, 39, 13, 45,  5, 37,
             63, 31, 55, 23, 61, 29, 53, 21]"

text \<open>
  \<^verbatim>\<open>computeBayerThresholdMap(n, M)\<close>. \<open>M\<close> is the caller's buffer with the contents it
  has on entry; the \<^verbatim>\<open>memcpy\<close> overwrites its first \<open>n*n\<close> entries when \<open>n\<close> is 4 or 8
  and nothing is copied otherwise. The loop then rescales the first \<open>n*n\<close> entries in
  place (\<open>dv\<close> is the variable \<^verbatim>\<open>div\<close> of the source). A buffer shorter than \<open>n*n\<close> is written past its end: \<open>None\<close>.
\<close>

definition computeBayerThresholdMap :: "int \<Rightarrow> float list \<Rightarrow> float list option" where
  "computeBayerThresholdMap n M =
     (if length M < nat (n * n) then None
      else
        let M1 = (if n = 4 then bayer4 @ drop (nat (n * n)) M
                  else if n = 8 then bayer8 @ drop (nat (n * n)) M
                  else M);
            dv = fdiv 1 (fl (rat_of_int (n * n)))
        in Some (fold (\<lambda>i M. M[i := fsub (fmul (M ! i) dv) (1 / 2)]) [0..<nat (n * n)] M1))"

section \<open>Quantizer\<close>

definition clamp255 :: "float \<Rightarrow> float" where
  "clamp255 v = (if v < 0 then 0 else if v > 255 then 255 else v)"

text \<open>\<^verbatim>\<open>ditherBayerValue\<close>: \<^verbatim>\<open>(uint8_t)round(clamp255((float)uv + r * m))\<close>.\<close>

definition ditherBayerValue :: "u8 \<Rightarrow> float \<Rightarrow> float \<Rightarrow> u8 option" where
  "ditherBayerValue uv m r =
     (let v = fadd (float_of_uint8 uv) (fmul r m);
          v = clamp255 v
      in float_to_uint8 (c_round v))"

text \<open>
  \<^verbatim>\<open>addNoise\<close>: the sum is taken in \<^verbatim>\<open>int\<close> and stored in an \<^verbatim>\<open>int16_t\<close>, compared as
  a signed number, and returned as \<^verbatim>\<open>uint8_t\<close>.
\<close>

definition addNoise :: "u8 \<Rightarrow> 8 word \<Rightarrow> u8" where
  "addNoise v_in noise =
     (let v = (word_of_int (uint v_in + sint noise) :: 16 word);
          v = (if sint v > 255 then 255 else if sint v < 0 then 0 else v)
      in ucast v)"

section \<open>DitherPipeline\<close>

text \<open>
  One statement \<^verbatim>\<open>data[i] = addNoise(data[i], t * bpp_mul - bpp_bias)\<close> of the two
  dither loops: the \<^verbatim>\<open>float\<close> expression is converted to the \<^verbatim>\<open>int8_t\<close> parameter of
  \<^verbatim>\<open>addNoise\<close>. \<open>t\<close> is \<^verbatim>\<open>rnd\<close> or \<^verbatim>\<open>1.0f - rnd\<close>.
\<close>

definition dither_channel :: "u8 \<Rightarrow> float \<Rightarrow> u8 \<Rightarrow> u8 \<Rightarrow> u8 option" where
  "dither_channel v t bpp_mul bpp_bias =
     map_option (addNoise v)
       (float_to_int8 (fsub (fmul t (float_of_uint8 bpp_mul)) (float_of_uint8 bpp_bias)))"

text \<open>
  Body of the inner loop of \<^verbatim>\<open>ditherInterleavedGradientRGBA4444\<close> at column \<open>x\<close> and row
  \<open>y\<close>, on the four bytes of the pixel.
\<close>

definition ditherRGBA4444_px :: "u32 \<Rightarrow> u32 \<Rightarrow> u8 \<Rightarrow> u8 \<Rightarrow> u8 \<Rightarrow> u8 \<Rightarrow> u8 list option" where
  "ditherRGBA4444_px x y d0 d1 d2 d3 =
     (let bpp_mul = (16 :: u8);
          bpp_bias = bpp_mul div 2
      in Option.bind (InterleavedGradientNoise (float_of_uint32 x) (float_of_uint32 y)) (\<lambda>rnd.
         Option.bind (dither_channel d0 rnd bpp_mul bpp_bias) (\<lambda>e0.
         Option.bind (dither_channel d1 (fsub 1 rnd) bpp_mul bpp_bias) (\<lambda>e1.
         Option.bind (dither_channel d2 rnd bpp_mul bpp_bias) (\<lambda>e2.
         Option.bind (dither_channel d3 rnd bpp_mul bpp_bias) (\<lambda>e3.
         Some [e0, e1, e2, e3]))))))"

text \<open>
  The inner loop over \<open>x\<close>, with \<open>k\<close> columns left, and the outer loop over \<open>y\<close>, with
  \<open>k\<close> rows left. Both walk the buffer four bytes at a time and return the bytes
  written followed by the rest of the buffer. A buffer that ends too early is read
  and written past its end: \<open>None\<close>.
\<close>

fun ditherRGBA4444_cols :: "u32 \<Rightarrow> u32 \<Rightarrow> nat \<Rightarrow> u8 list \<Rightarrow> (u8 list \<times> u8 list) option" where
  "ditherRGBA4444_cols y x 0 data = Some ([], data)"
| "ditherRGBA4444_cols y x (Suc k) (d0 # d1 # d2 # d3 # data) =
     (case ditherRGBA4444_px x y d0 d1 d2 d3 of
        None \<Rightarrow> None
      | Some px \<Rightarrow>
          (case ditherRGBA4444_cols y (x + 1) k data of
             None \<Rightarrow> None
           | Some (wrote, rest) \<Rightarrow> Some (px @ wrote, rest)))"
| "ditherRGBA4444_cols y x (Suc k) _ = None"

fun ditherRGBA4444_rows :: "u32 \<Rightarrow> u32 \<Rightarrow> nat \<Rightarrow> u8 list \<Rightarrow> u8 list option" where
  "ditherRGBA4444_rows width y 0 data = Some data"
| "ditherRGBA4444_rows width y (Suc k) data =
     (case ditherRGBA4444_cols y 0 (unat width) data of
        None \<Rightarrow> None
      | Some (wrote, rest) \<Rightarrow>
          map_option (\<lambda>below. wrote @ below) (ditherRGBA4444_rows width (y + 1) k rest))"

definition ditherInterleavedGradientRGBA4444 :: "u8 list \<Rightarrow> u32 \<Rightarrow> u32 \<Rightarrow> u8 list option" where
  "ditherInterleavedGradientRGBA4444 data width height =
     ditherRGBA4444_rows width 0 (unat height) data"

text \<open>The same for \<^verbatim>\<open>ditherInterleavedGradientRGBx565\<close>; the fourth byte is not touched.\<close>

definition ditherRGBx565_px :: "u32 \<Rightarrow> u32 \<Rightarrow> u8 \<Rightarrow> u8 \<Rightarrow> u8 \<Rightarrow> u8 \<Rightarrow> u8 list option" where
  "ditherRGBx565_px x y d0 d1 d2 d3 =
     (let bpp_mul_5 = (8 :: u8);
          bpp_bias_5 = bpp_mul_5 div 2;
          bpp_mul_6 = (4 :: u8);
          bpp_bias_6 = bpp_mul_6 div 2
      in Option.bind (InterleavedGradientNoise (float_of_uint32 x) (float_of_uint32 y)) (\<lambda>rnd.
         Option.bind (dither_channel d0 rnd bpp_mul_5 bpp_bias_5) (\<lambda>e0.
         Option.bind (dither_channel d1 (fsub 1 rnd) bpp_mul_6 bpp_bias_6) (\<lambda>e1.
         Option.bind (dither_channel d2 rnd bpp_mul_5 bpp_bias_5) (\<lambda>e2.
         Some [e0, e1, e2, d3])))))"

fun ditherRGBx565_cols :: "u32 \<Rightarrow> u32 \<Rightarrow> nat \<Rightarrow> u8 list \<Rightarrow> (u8 list \<times> u8 list) option" where
  "ditherRGBx565_cols y x 0 data = Some ([], data)"
| "ditherRGBx565_cols y x (Suc k) (d0 # d1 # d2 # d3 # data) =
     (case ditherRGBx565_px x y d0 d1 d2 d3 of
        None \<Rightarrow> None
      | Some px \<Rightarrow>
          (case ditherRGBx565_cols y (x + 1) k data of
             None \<Rightarrow> None
           | Some (wrote, rest) \<Rightarrow> Some (px @ wrote, rest)))"
| "ditherRGBx565_cols y x (Suc k) _ = None"

fun ditherRGBx565_rows :: "u32 \<Rightarrow> u32 \<Rightarrow> nat \<Rightarrow> u8 list \<Rightarrow> u8 list option" where
  "ditherRGBx565_rows width y 0 data = Some data"
| "ditherRGBx565_rows width y (Suc k) data =
     (case ditherRGBx565_cols y 0 (unat width) data of
        None \<Rightarrow> None
      | Some (wrote, rest) \<Rightarrow>
          map_option (\<lambda>below. wrote @ below) (ditherRGBx565_rows width (y + 1) k rest))"

definition ditherInterleavedGradientRGBx565 :: "u8 list \<Rightarrow> u32 \<Rightarrow> u32 \<Rightarrow> u8 list option" where
  "ditherInterleavedGradientRGBx565 data width height =
     ditherRGBx565_rows width 0 (unat height) data"

section \<open>The program\<close>

text \<open>
  What a run of \<^verbatim>\<open>main\<close> leaves behind: the exit status, the text written to
  \<^verbatim>\<open>stderr\<close> and to \<^verbatim>\<open>stdout\<close>, and the image handed to \<^verbatim>\<open>stbi_write_png\<close> (file
  name, width, height and the bytes of the four-channel buffer), if any.
\<close>

record outcome =
  exit_code :: int
  stderr_text :: string
  stdout_text :: string
  png :: "(string \<times> int \<times> int \<times> u8 list) option"

text \<open>
  The loop of \<^verbatim>\<open>main\<close> that makes an RGBA buffer out of an RGB one, \<open>k\<close> pixels left.
\<close>

fun expand_rgb :: "nat \<Rightarrow> u8 list \<Rightarrow> u8 list option" where
  "expand_rgb 0 image_input = Some []"
| "expand_rgb (Suc k) (r # g # b # image_input) =
     map_option (\<lambda>rest. r # g # b # 255 # rest) (expand_rgb k image_input)"
| "expand_rgb (Suc k) _ = None"

text \<open>
  \<^verbatim>\<open>main\<close>. The decoder \<^verbatim>\<open>stbi_load\<close> is a parameter: it gives width, height, channel
  count and the decoded bytes, or nothing. \<open>fresh\<close> is what the buffer
  \<^verbatim>\<open>image_output_32bit\<close> holds when \<^verbatim>\<open>malloc\<close> returns it. The result of
  \<^verbatim>\<open>stbi_write_png\<close> is not looked at by the program. \<open>None\<close> is undefined behaviour
  in one of the stages.
\<close>

definition main :: "string list \<Rightarrow> (string \<Rightarrow> (int \<times> int \<times> int \<times> u8 list) option) \<Rightarrow> u8 list
    \<Rightarrow> outcome option" where
  "main argv stbi_load fresh =
     (if \<not> 1 < length argv then
        Some \<lparr>exit_code = 1, stderr_text = ''You must supply an image path'',
              stdout_text = [], png = None\<rparr>
      else
        let path = argv ! 1 in
        case stbi_load path of
          None \<Rightarrow>
            Some \<lparr>exit_code = 1,
                  stderr_text = ''Failed to load '' @ [CHR 0x27] @ path @ [CHR 0x27],
                  stdout_text = [], png = None\<rparr>
        | Some (width, height, numchannels, image_input) \<Rightarrow>
            let w = (word_of_int width :: u32);
                h = (word_of_int height :: u32);
                image_output_32bit =
                  (if numchannels = 4 then
                     Option.bind (ditherInterleavedGradientRGBA4444 image_input w h) (\<lambda>dithered.
                     Option.bind (RGBA8888ToRGBA4444 dithered w h) (\<lambda>image_output_16bit.
                     RGBA4444ToRGBA8888 image_output_16bit w h))
                   else if numchannels = 3 then
                     Option.bind (expand_rgb (nat (width * height)) image_input) (\<lambda>image_input8888.
                     Option.bind (ditherInterleavedGradientRGBx565 image_input8888 w h) (\<lambda>dithered.
                     Option.bind (RGBA8888ToRGB565 dithered w h) (\<lambda>image_output_16bit.
                     RGB565ToRGBA8888 image_output_16bit w h)))
                   else Some fresh);
                buffer = path @ ''.dither.png''
            in map_option
                 (\<lambda>image. \<lparr>exit_code = 0, stderr_text = [],
                            stdout_text = ''Wrote '' @ [CHR 0x27] @ buffer @ [CHR 0x27, CHR 0x0A],
                            png = Some (buffer, width, height, image)\<rparr>)
                 image_output_32bit)"

section \<open>The specification's formula for the noise-dither quantizer\<close>

text \<open>
  This definition follows the words of the specification, not the code:
  \<^verbatim>\<open>result = clamp(v + round(noise * step - step/2), 0, 255)\<close>, the perturbation
  rounded to the nearest integer, in exact arithmetic.
\<close>

definition spec_noise_dither :: "int \<Rightarrow> rat \<Rightarrow> rat \<Rightarrow> int" where
  "spec_noise_dither v noise step = max 0 (min 255 (v + round (noise * step - step / 2)))"

section \<open>PixelCodec: arithmetic of the rescaling formulas\<close>

text \<open>
  The integer promotion commutes with the shift to the right: the definitions with the
  shift taken on the narrow type.
\<close>

lemma promote_shift8: "drop_bit n (ucast (w :: u8) :: u32) = ucast (drop_bit n w)"
  by (simp add: ucast_drop_bit_eq)

lemma promote_shift16: "drop_bit n (ucast (w :: u16) :: u32) = ucast (drop_bit n w)"
  by (simp add: ucast_drop_bit_eq)

lemma RGB565ToRGBA8888_exprs_alt:
  "RGB565ToRGBA8888_exprs c =
     (let r5 = (ucast (drop_bit 11 c) AND 0x1f :: u32);
          g6 = (ucast (drop_bit 5 c) AND 0x3f :: u32);
          b5 = (ucast (drop_bit 0 c) AND 0x1f :: u32)
      in [expand5 r5, expand6 g6, expand5 b5, 255])"
  unfolding RGB565ToRGBA8888_exprs_def promote_shift16 ..

lemma RGBA8888ToRGB565_px_alt:
  "RGBA8888ToRGB565_px red green blue =
     (let r = (ucast (push_bit 11 ((ucast (drop_bit 3 red) :: u32) AND 0x1f)) :: u16);
          g = (ucast (push_bit 5 ((ucast (drop_bit 2 green) :: u32) AND 0x3f)) :: u16);
          b = (ucast ((ucast (drop_bit 3 blue) :: u32) AND 0x1f) :: u16)
      in r OR g OR b)"
  unfolding RGBA8888ToRGB565_px_def promote_shift8 ..

lemma RGBA4444ToRGBA8888_exprs_alt:
  "RGBA4444ToRGBA8888_exprs c =
     (let r4 = (ucast (drop_bit 12 c) AND 0xf :: u32);
          g4 = (ucast (drop_bit 8 c) AND 0xf :: u32);
          b4 = (ucast (drop_bit 4 c) AND 0xf :: u32);
          a4 = (ucast (drop_bit 0 c) AND 0xf :: u32)
      in [expand4 r4, expand4 g4, expand4 b4, expand4 a4])"
  unfolding RGBA4444ToRGBA8888_exprs_def promote_shift16 ..

lemma RGBA8888ToRGBA4444_px_alt:
  "RGBA8888ToRGBA4444_px d0 d1 d2 d3 =
     (let r = (ucast (push_bit 12 (ucast (drop_bit 4 d0) :: u32)) :: u16);
          g = (ucast (push_bit 8 (ucast (drop_bit 4 d1) :: u32)) :: u16);
          b = (ucast (push_bit 4 (ucast (drop_bit 4 d2) :: u32)) :: u16);
          a = (ucast (push_bit 0 (ucast (drop_bit 4 d3) :: u32)) :: u16)
      in r OR g OR b OR a)"
  unfolding RGBA8888ToRGBA4444_px_def promote_shift8 ..

lemma div_bounds: "0 < d \<Longrightarrow> d * (n div d) \<le> n \<and> n < d * (n div d) + (d::nat)"
  by (metis add.commute dividend_less_times_div mult.commute times_div_less_eq_dividend)

lemma nat_chan5:
  assumes "v < 256"
  shows "(v div 8 * 255 + 15) div 31 \<le> (255::nat)"
    and "\<bar>int ((v div 8 * 255 + 15) div 31) - int v\<bar> \<le> 9"
proof -
  define q where "q = v div 8"
  define t where "t = (q * 255 + 15) div 31"
  have q: "8 * q \<le> v" "v < 8 * q + 8"
    using div_bounds [of 8 v] by (simp_all add: q_def)
  have t: "31 * t \<le> q * 255 + 15" "q * 255 + 15 < 31 * t + 31"
    using div_bounds [of 31 "q * 255 + 15"] by (simp_all add: t_def)
  have q31: "q \<le> 31" using q assms by linarith
  have t1: "8 * q \<le> t" using t by linarith
  have t2: "t \<le> 8 * q + 7" using t q31 by linarith
  show "(v div 8 * 255 + 15) div 31 \<le> (255::nat)"
    unfolding q_def [symmetric] t_def [symmetric] using t2 q31 by linarith
  show "\<bar>int ((v div 8 * 255 + 15) div 31) - int v\<bar> \<le> 9"
    unfolding q_def [symmetric] t_def [symmetric] using t1 t2 q by linarith
qed

lemma nat_chan6:
  assumes "v < 256"
  shows "(v div 4 * 255 + 31) div 63 \<le> (255::nat)"
    and "\<bar>int ((v div 4 * 255 + 31) div 63) - int v\<bar> \<le> 5"
proof -
  define q where "q = v div 4"
  define t where "t = (q * 255 + 31) div 63"
  have q: "4 * q \<le> v" "v < 4 * q + 4"
    using div_bounds [of 4 v] by (simp_all add: q_def)
  have t: "63 * t \<le> q * 255 + 31" "q * 255 + 31 < 63 * t + 63"
    using div_bounds [of 63 "q * 255 + 31"] by (simp_all add: t_def)
  have q63: "q \<le> 63" using q assms by linarith
  have t1: "4 * q \<le> t" using t by linarith
  have t2: "t \<le> 4 * q + 3" using t q63 by linarith
  show "(v div 4 * 255 + 31) div 63 \<le> (255::nat)"
    unfolding q_def [symmetric] t_def [symmetric] using t2 q63 by linarith
  show "\<bar>int ((v div 4 * 255 + 31) div 63) - int v\<bar> \<le> 5"
    unfolding q_def [symmetric] t_def [symmetric] using t1 t2 q by linarith
qed

lemma nat_chan4:
  assumes "v < 256"
  shows "(v div 16 * 255 + 7) div 15 \<le> (255::nat)"
    and "\<bar>int ((v div 16 * 255 + 7) div 15) - int v\<bar> \<le> 15"
proof -
  define q where "q = v div 16"
  define t where "t = (q * 255 + 7) div 15"
  have q: "16 * q \<le> v" "v < 16 * q + 16"
    using div_bounds [of 16 v] by (simp_all add: q_def)
  have t: "15 * t \<le> q * 255 + 7" "q * 255 + 7 < 15 * t + 15"
    using div_bounds [of 15 "q * 255 + 7"] by (simp_all add: t_def)
  have q15: "q \<le> 15" using q assms by linarith
  have t1: "t = 17 * q" using t by linarith
  show "(v div 16 * 255 + 7) div 15 \<le> (255::nat)"
    unfolding q_def [symmetric] t_def [symmetric] using t1 q15 by linarith
  show "\<bar>int ((v div 16 * 255 + 7) div 15) - int v\<bar> \<le> 15"
    unfolding q_def [symmetric] t_def [symmetric] using t1 q15 q by linarith
qed

lemma nat_field5: assumes "f < 32" shows "(f * 255 + 15) div 31 div 8 = (f::nat)"
proof -
  define t where "t = (f * 255 + 15) div 31"
  have t: "31 * t \<le> f * 255 + 15" "f * 255 + 15 < 31 * t + 31"
    using div_bounds [of 31 "f * 255 + 15"] by (simp_all add: t_def)
  have "8 * f \<le> t" "t < 8 * f + 8" using t assms by linarith+
  then have "t div 8 = f"
    by (intro div_nat_eqI) simp_all
  then show ?thesis by (simp add: t_def)
qed

lemma nat_field6: assumes "f < 64" shows "(f * 255 + 31) div 63 div 4 = (f::nat)"
proof -
  define t where "t = (f * 255 + 31) div 63"
  have t: "63 * t \<le> f * 255 + 31" "f * 255 + 31 < 63 * t + 63"
    using div_bounds [of 63 "f * 255 + 31"] by (simp_all add: t_def)
  have "4 * f \<le> t" "t < 4 * f + 4" using t assms by linarith+
  then have "t div 4 = f"
    by (intro div_nat_eqI) simp_all
  then show ?thesis by (simp add: t_def)
qed

lemma nat_field4: assumes "f < 16" shows "(f * 255 + 7) div 15 div 16 = (f::nat)"
proof -
  define t where "t = (f * 255 + 7) div 15"
  have t: "15 * t \<le> f * 255 + 7" "f * 255 + 7 < 15 * t + 15"
    using div_bounds [of 15 "f * 255 + 7"] by (simp_all add: t_def)
  have "16 * f \<le> t" "t < 16 * f + 16" using t assms by linarith+
  then have "t div 16 = f"
    by (intro div_nat_eqI) simp_all
  then show ?thesis by (simp add: t_def)
qed


lemma mask5_num: "(0x1f :: 'a::len word) = mask 5" by (simp add: mask_eq_exp_minus_1)
lemma mask6_num: "(0x3f :: 'a::len word) = mask 6" by (simp add: mask_eq_exp_minus_1)
lemma mask4_num: "(0xf :: 'a::len word) = mask 4" by (simp add: mask_eq_exp_minus_1)

lemma unat_u8_shift: "unat (ucast (drop_bit k (v::u8)) :: u32) = unat v div 2 ^ k"
proof -
  have "unat v < 2 ^ 32"
    using unsigned_less [of v, where 'a=nat] by simp
  then have "unat v div 2 ^ k < 2 ^ 32"
    by (rule le_less_trans [OF div_le_dividend])
  then show ?thesis
    by (simp only: unsigned_ucast_eq unat_drop_bit_eq) (simp add: drop_bit_eq_div take_bit_eq_mod)
qed

lemma unat_u8_less: "unat (v::u8) < 256"
  using unsigned_less [of v, where 'a=nat] by simp

lemma unat_expand5: "unat f < 65536 \<Longrightarrow> unat (expand5 f) = (unat f * 255 + 15) div 31"
  unfolding expand5_def by (simp add: unat_div unat_word_ariths)

lemma unat_expand6: "unat f < 65536 \<Longrightarrow> unat (expand6 f) = (unat f * 255 + 31) div 63"
  unfolding expand6_def by (simp add: unat_div unat_word_ariths)

lemma unat_expand4: "unat f < 65536 \<Longrightarrow> unat (expand4 f) = (unat f * 255 + 7) div 15"
  unfolding expand4_def by (simp add: unat_div unat_word_ariths)

lemma unat_and_mask_less: "unat ((x :: 'a::len word) AND mask n) < 2 ^ n"
  by (simp only: unsigned_take_bit_eq flip: take_bit_eq_mask) (simp add: take_bit_eq_mod)

lemma unat_store_u8: "unat (x::u32) < 256 \<Longrightarrow> unat (ucast x :: u8) = unat x"
  by (simp add: unsigned_ucast_eq take_bit_eq_mod)

text \<open>One channel through pack and unpack.\<close>

lemma chan5:
  fixes v :: u8
  defines "e \<equiv> expand5 (ucast (drop_bit 3 v))"
  shows "unat e \<le> 255" and "\<bar>uint (ucast e :: u8) - uint v\<bar> \<le> 9"
proof -
  have v: "unat v < 256" by (rule unat_u8_less)
  have f: "unat (ucast (drop_bit 3 v) :: u32) = unat v div 8"
    using unat_u8_shift [of 3 v] by simp
  have "unat (ucast (drop_bit 3 v) :: u32) < 65536" using v by (simp add: f)
  then have e: "unat e = (unat v div 8 * 255 + 15) div 31"
    unfolding e_def by (simp only: unat_expand5 f)
  show le: "unat e \<le> 255" using nat_chan5(1) [OF v] by (simp only: e)
  have st: "unat (ucast e :: u8) = unat e" using le by (simp add: unat_store_u8)
  have "\<bar>int (unat e) - int (unat v)\<bar> \<le> 9" using nat_chan5(2) [OF v] by (simp only: e)
  then show "\<bar>uint (ucast e :: u8) - uint v\<bar> \<le> 9"
    by (simp only: uint_nat st)
qed

lemma chan6:
  fixes v :: u8
  defines "e \<equiv> expand6 (ucast (drop_bit 2 v))"
  shows "unat e \<le> 255" and "\<bar>uint (ucast e :: u8) - uint v\<bar> \<le> 5"
proof -
  have v: "unat v < 256" by (rule unat_u8_less)
  have f: "unat (ucast (drop_bit 2 v) :: u32) = unat v div 4"
    using unat_u8_shift [of 2 v] by simp
  have "unat (ucast (drop_bit 2 v) :: u32) < 65536" using v by (simp add: f)
  then have e: "unat e = (unat v div 4 * 255 + 31) div 63"
    unfolding e_def by (simp only: unat_expand6 f)
  show le: "unat e \<le> 255" using nat_chan6(1) [OF v] by (simp only: e)
  have st: "unat (ucast e :: u8) = unat e" using le by (simp add: unat_store_u8)
  have "\<bar>int (unat e) - int (unat v)\<bar> \<le> 5" using nat_chan6(2) [OF v] by (simp only: e)
  then show "\<bar>uint (ucast e :: u8) - uint v\<bar> \<le> 5"
    by (simp only: uint_nat st)
qed

lemma chan4:
  fixes v :: u8
  defines "e \<equiv> expand4 (ucast (drop_bit 4 v))"
  shows "unat e \<le> 255" and "\<bar>uint (ucast e :: u8) - uint v\<bar> \<le> 15"
proof -
  have v: "unat v < 256" by (rule unat_u8_less)
  have f: "unat (ucast (drop_bit 4 v) :: u32) = unat v div 16"
    using unat_u8_shift [of 4 v] by simp
  have "unat (ucast (drop_bit 4 v) :: u32) < 65536" using v by (simp add: f)
  then have e: "unat e = (unat v div 16 * 255 + 7) div 15"
    unfolding e_def by (simp only: unat_expand4 f)
  show le: "unat e \<le> 255" using nat_chan4(1) [OF v] by (simp only: e)
  have st: "unat (ucast e :: u8) = unat e" using le by (simp add: unat_store_u8)
  have "\<bar>int (unat e) - int (unat v)\<bar> \<le> 15" using nat_chan4(2) [OF v] by (simp only: e)
  then show "\<bar>uint (ucast e :: u8) - uint v\<bar> \<le> 15"
    by (simp only: uint_nat st)
qed

lemma fields_of_RGB565_px:
  "(ucast (drop_bit 11 (RGBA8888ToRGB565_px r g b)) AND 0x1f :: u32) = ucast (drop_bit 3 r)"
  "(ucast (drop_bit 5 (RGBA8888ToRGB565_px r g b)) AND 0x3f :: u32) = ucast (drop_bit 2 g)"
  "(ucast (drop_bit 0 (RGBA8888ToRGB565_px r g b)) AND 0x1f :: u32) = ucast (drop_bit 3 b)"
  unfolding RGBA8888ToRGB565_px_alt Let_def mask5_num mask6_num
  subgoal by (rule bit_eqI) (auto simp add: bit_simps dest: bit_imp_le_length)
  subgoal by (rule bit_eqI) (auto simp add: bit_simps dest: bit_imp_le_length)
  subgoal by (rule bit_eqI) (auto simp add: bit_simps dest: bit_imp_le_length)
  done

lemma fields_of_RGBA4444_px:
  "(ucast (drop_bit 12 (RGBA8888ToRGBA4444_px r g b a)) AND 0xf :: u32) = ucast (drop_bit 4 r)"
  "(ucast (drop_bit 8 (RGBA8888ToRGBA4444_px r g b a)) AND 0xf :: u32) = ucast (drop_bit 4 g)"
  "(ucast (drop_bit 4 (RGBA8888ToRGBA4444_px r g b a)) AND 0xf :: u32) = ucast (drop_bit 4 b)"
  "(ucast (drop_bit 0 (RGBA8888ToRGBA4444_px r g b a)) AND 0xf :: u32) = ucast (drop_bit 4 a)"
  unfolding RGBA8888ToRGBA4444_px_alt Let_def mask4_num
  subgoal by (rule bit_eqI) (auto simp add: bit_simps dest: bit_imp_le_length)
  subgoal by (rule bit_eqI) (auto simp add: bit_simps dest: bit_imp_le_length)
  subgoal by (rule bit_eqI) (auto simp add: bit_simps dest: bit_imp_le_length)
  subgoal by (rule bit_eqI) (auto simp add: bit_simps dest: bit_imp_le_length)
  done

lemma RGB565_exprs_of_px:
  "RGB565ToRGBA8888_exprs (RGBA8888ToRGB565_px r g b) =
     [expand5 (ucast (drop_bit 3 r)), expand6 (ucast (drop_bit 2 g)), expand5 (ucast (drop_bit 3 b)), 255]"
  by (simp only: RGB565ToRGBA8888_exprs_alt Let_def fields_of_RGB565_px)

lemma RGBA4444_exprs_of_px:
  "RGBA4444ToRGBA8888_exprs (RGBA8888ToRGBA4444_px r g b a) =
     [expand4 (ucast (drop_bit 4 r)), expand4 (ucast (drop_bit 4 g)),
      expand4 (ucast (drop_bit 4 b)), expand4 (ucast (drop_bit 4 a))]"
  by (simp only: RGBA4444ToRGBA8888_exprs_alt Let_def fields_of_RGBA4444_px)

lemma nat_expand_le:
  "f < 32 \<Longrightarrow> (f * 255 + 15) div 31 \<le> (255::nat)"
  "f < 64 \<Longrightarrow> (f * 255 + 31) div 63 \<le> (255::nat)"
  "f < 16 \<Longrightarrow> (f * 255 + 7) div 15 \<le> (255::nat)"
proof -
  show "f < 32 \<Longrightarrow> (f * 255 + 15) div 31 \<le> (255::nat)"
    using div_bounds [of 31 "f * 255 + 15"] by linarith
  show "f < 64 \<Longrightarrow> (f * 255 + 31) div 63 \<le> (255::nat)"
    using div_bounds [of 63 "f * 255 + 31"] by linarith
  show "f < 16 \<Longrightarrow> (f * 255 + 7) div 15 \<le> (255::nat)"
    using div_bounds [of 15 "f * 255 + 7"] by linarith
qed

lemma field5_back:
  fixes f :: u32
  assumes "unat f < 32"
  shows "unat (expand5 f) \<le> 255" and "ucast (drop_bit 3 (ucast (expand5 f) :: u8)) = f"
proof -
  have e: "unat (expand5 f) = (unat f * 255 + 15) div 31"
    using assms by (simp add: unat_expand5)
  show le: "unat (expand5 f) \<le> 255"
    unfolding e using assms by (rule nat_expand_le)
  have "unat (ucast (drop_bit 3 (ucast (expand5 f) :: u8)) :: u32) = unat (ucast (expand5 f) :: u8) div 8"
    using unat_u8_shift [of 3] by simp
  also have "\<dots> = (unat f * 255 + 15) div 31 div 8"
    using le by (simp add: unat_store_u8 e)
  also have "\<dots> = unat f" using assms by (rule nat_field5)
  finally show "ucast (drop_bit 3 (ucast (expand5 f) :: u8)) = f"
    by (simp only: word_unat_eq_iff)
qed

lemma field6_back:
  fixes f :: u32
  assumes "unat f < 64"
  shows "unat (expand6 f) \<le> 255" and "ucast (drop_bit 2 (ucast (expand6 f) :: u8)) = f"
proof -
  have e: "unat (expand6 f) = (unat f * 255 + 31) div 63"
    using assms by (simp add: unat_expand6)
  show le: "unat (expand6 f) \<le> 255"
    unfolding e using assms by (rule nat_expand_le)
  have "unat (ucast (drop_bit 2 (ucast (expand6 f) :: u8)) :: u32) = unat (ucast (expand6 f) :: u8) div 4"
    using unat_u8_shift [of 2] by simp
  also have "\<dots> = (unat f * 255 + 31) div 63 div 4"
    using le by (simp add: unat_store_u8 e)
  also have "\<dots> = unat f" using assms by (rule nat_field6)
  finally show "ucast (drop_bit 2 (ucast (expand6 f) :: u8)) = f"
    by (simp only: word_unat_eq_iff)
qed

lemma field4_back:
  fixes f :: u32
  assumes "unat f < 16"
  shows "unat (expand4 f) \<le> 255" and "ucast (drop_bit 4 (ucast (expand4 f) :: u8)) = f"
proof -
  have e: "unat (expand4 f) = (unat f * 255 + 7) div 15"
    using assms by (simp add: unat_expand4)
  show le: "unat (expand4 f) \<le> 255"
    unfolding e using assms by (rule nat_expand_le)
  have "unat (ucast (drop_bit 4 (ucast (expand4 f) :: u8)) :: u32) = unat (ucast (expand4 f) :: u8) div 16"
    using unat_u8_shift [of 4] by simp
  also have "\<dots> = (unat f * 255 + 7) div 15 div 16"
    using le by (simp add: unat_store_u8 e)
  also have "\<dots> = unat f" using assms by (rule nat_field4)
  finally show "ucast (drop_bit 4 (ucast (expand4 f) :: u8)) = f"
    by (simp only: word_unat_eq_iff)
qed

lemma and_mask_idem: "(x AND mask n) AND mask n = (x AND mask n :: 'a::len word)"
  by (simp add: and.assoc)

lemma split565:
  "(c::u16) = ucast (push_bit 11 (ucast (drop_bit 11 c) AND mask 5 :: u32))
     OR ucast (push_bit 5 (ucast (drop_bit 5 c) AND mask 6 :: u32))
     OR ucast (ucast (drop_bit 0 c) AND mask 5 :: u32)"
proof (rule bit_eqI)
  fix n
  assume "possible_bit TYPE(u16) n"
  then have n: "n < 16" by (simp add: possible_bit_def)
  consider "n < 5" | "5 \<le> n" "n < 11" | "11 \<le> n" by linarith
  then show "bit c n = bit (ucast (push_bit 11 (ucast (drop_bit 11 c) AND mask 5 :: u32))
     OR ucast (push_bit 5 (ucast (drop_bit 5 c) AND mask 6 :: u32))
     OR ucast (ucast (drop_bit 0 c) AND mask 5 :: u32) :: u16) n"
    using n by cases (auto simp add: bit_simps)
qed

lemma split4444:
  "(c::u16) = ucast (push_bit 12 (ucast (drop_bit 12 c) AND mask 4 :: u32))
     OR ucast (push_bit 8 (ucast (drop_bit 8 c) AND mask 4 :: u32))
     OR ucast (push_bit 4 (ucast (drop_bit 4 c) AND mask 4 :: u32))
     OR ucast (push_bit 0 (ucast (drop_bit 0 c) AND mask 4 :: u32))"
proof (rule bit_eqI)
  fix n
  assume "possible_bit TYPE(u16) n"
  then have n: "n < 16" by (simp add: possible_bit_def)
  consider "n < 4" | "4 \<le> n" "n < 8" | "8 \<le> n" "n < 12" | "12 \<le> n" by linarith
  then show "bit c n = bit (ucast (push_bit 12 (ucast (drop_bit 12 c) AND mask 4 :: u32))
     OR ucast (push_bit 8 (ucast (drop_bit 8 c) AND mask 4 :: u32))
     OR ucast (push_bit 4 (ucast (drop_bit 4 c) AND mask 4 :: u32))
     OR ucast (push_bit 0 (ucast (drop_bit 0 c) AND mask 4 :: u32)) :: u16) n"
    using n by cases (auto simp add: bit_simps)
qed

lemma RGB565_repack_px:
  "RGB565ToRGBA8888_px c = [r, g, b, a] \<Longrightarrow> RGBA8888ToRGB565_px r g b = c"
proof -
  assume px: "RGB565ToRGBA8888_px c = [r, g, b, a]"
  define r5 :: u32 where "r5 = ucast (drop_bit 11 c) AND mask 5"
  define g6 :: u32 where "g6 = ucast (drop_bit 5 c) AND mask 6"
  define b5 :: u32 where "b5 = ucast (drop_bit 0 c) AND mask 5"
  note r5_g6_b5_def = r5_def g6_def b5_def
  have bounds: "unat r5 < 32" "unat g6 < 64" "unat b5 < 32"
    using unat_and_mask_less [of _ 5, where 'a=32] unat_and_mask_less [of _ 6, where 'a=32]
    by (simp_all add: r5_g6_b5_def)
  have rgb: "r = ucast (expand5 r5)" "g = ucast (expand6 g6)" "b = ucast (expand5 b5)"
    using px unfolding RGB565ToRGBA8888_px_def RGB565ToRGBA8888_exprs_alt Let_def
      mask5_num mask6_num r5_g6_b5_def by simp_all
  have bk: "ucast (drop_bit 3 r) = r5" "ucast (drop_bit 2 g) = g6" "ucast (drop_bit 3 b) = b5"
    unfolding rgb using bounds by (simp_all only: field5_back field6_back)
  have idem: "r5 AND mask 5 = r5" "g6 AND mask 6 = g6" "b5 AND mask 5 = b5"
    unfolding r5_g6_b5_def by (simp_all only: and_mask_idem)
  have "RGBA8888ToRGB565_px r g b =
      ucast (push_bit 11 r5) OR ucast (push_bit 5 g6) OR ucast b5"
    unfolding RGBA8888ToRGB565_px_alt Let_def mask5_num mask6_num bk idem ..
  also have "\<dots> = c"
    unfolding r5_g6_b5_def by (rule split565 [symmetric])
  finally show ?thesis .
qed

lemma RGBA4444_repack_px:
  "RGBA4444ToRGBA8888_px c = [r, g, b, a] \<Longrightarrow> RGBA8888ToRGBA4444_px r g b a = c"
proof -
  assume px: "RGBA4444ToRGBA8888_px c = [r, g, b, a]"
  define r4 :: u32 where "r4 = ucast (drop_bit 12 c) AND mask 4"
  define g4 :: u32 where "g4 = ucast (drop_bit 8 c) AND mask 4"
  define b4 :: u32 where "b4 = ucast (drop_bit 4 c) AND mask 4"
  define a4 :: u32 where "a4 = ucast (drop_bit 0 c) AND mask 4"
  note r4_g4_b4_a4_def = r4_def g4_def b4_def a4_def
  have bounds: "unat r4 < 16" "unat g4 < 16" "unat b4 < 16" "unat a4 < 16"
    using unat_and_mask_less [of _ 4, where 'a=32]
    by (simp_all add: r4_g4_b4_a4_def)
  have rgb: "r = ucast (expand4 r4)" "g = ucast (expand4 g4)" "b = ucast (expand4 b4)"
     "a = ucast (expand4 a4)"
    using px unfolding RGBA4444ToRGBA8888_px_def RGBA4444ToRGBA8888_exprs_alt Let_def
      mask4_num r4_g4_b4_a4_def by simp_all
  have bk: "ucast (drop_bit 4 r) = r4" "ucast (drop_bit 4 g) = g4" "ucast (drop_bit 4 b) = b4"
      "ucast (drop_bit 4 a) = a4"
    unfolding rgb using bounds by (simp_all only: field4_back)
  have "RGBA8888ToRGBA4444_px r g b a =
      ucast (push_bit 12 r4) OR ucast (push_bit 8 g4) OR ucast (push_bit 4 b4) OR ucast (push_bit 0 a4)"
    unfolding RGBA8888ToRGBA4444_px_alt Let_def bk ..
  also have "\<dots> = c"
    unfolding r4_g4_b4_a4_def by (rule split4444 [symmetric])
  finally show ?thesis .
qed

lemma list4_exhaust:
  assumes "4 \<le> length xs"
  obtains a b c d rest where "xs = a # b # c # d # rest"
  using assms by (auto simp: Suc_le_length_iff numeral_eq_Suc)

lemma RGBA8888ToRGB565_loop_SucE:
  assumes "RGBA8888ToRGB565_loop (Suc n) data = Some packed"
  obtains r g b a rest packed' where "data = r # g # b # a # rest"
    and "RGBA8888ToRGB565_loop n rest = Some packed'"
    and "packed = RGBA8888ToRGB565_px r g b # packed'"
  using assms by (cases "(Suc n, data)" rule: RGBA8888ToRGB565_loop.cases) auto

lemma RGBA8888ToRGBA4444_loop_SucE:
  assumes "RGBA8888ToRGBA4444_loop (Suc n) data = Some packed"
  obtains r g b a rest packed' where "data = r # g # b # a # rest"
    and "RGBA8888ToRGBA4444_loop n rest = Some packed'"
    and "packed = RGBA8888ToRGBA4444_px r g b a # packed'"
  using assms by (cases "(Suc n, data)" rule: RGBA8888ToRGBA4444_loop.cases) auto

lemma RGBA8888ToRGB565_loop_total:
  "4 * n \<le> length data \<Longrightarrow> \<exists>packed. RGBA8888ToRGB565_loop n data = Some packed"
proof (induction n arbitrary: data)
  case 0
  show ?case by simp
next
  case (Suc n)
  then have "4 \<le> length data" by simp
  then obtain r g b a rest where data: "data = r # g # b # a # rest"
    by (rule list4_exhaust)
  with Suc.prems have "4 * n \<le> length rest" by simp
  from Suc.IH [OF this] show ?case by (auto simp add: data)
qed

lemma RGBA8888ToRGBA4444_loop_total:
  "4 * n \<le> length data \<Longrightarrow> \<exists>packed. RGBA8888ToRGBA4444_loop n data = Some packed"
proof (induction n arbitrary: data)
  case 0
  show ?case by simp
next
  case (Suc n)
  then have "4 \<le> length data" by simp
  then obtain r g b a rest where data: "data = r # g # b # a # rest"
    by (rule list4_exhaust)
  with Suc.prems have "4 * n \<le> length rest" by simp
  from Suc.IH [OF this] show ?case by (auto simp add: data)
qed

lemma nth_quad:
  "(a # b # c # d # xs) ! (4 * Suc i) = xs ! (4 * i)"
  "(a # b # c # d # xs) ! (4 * Suc i + 1) = xs ! (4 * i + 1)"
  "(a # b # c # d # xs) ! (4 * Suc i + 2) = xs ! (4 * i + 2)"
  "(a # b # c # d # xs) ! (4 * Suc i + 3) = xs ! (4 * i + 3)"
  by (simp_all add: numeral_eq_Suc)

lemma rgb565_roundtrip_loop:
  "RGBA8888ToRGB565_loop n data = Some packed \<Longrightarrow>
   \<exists>out. RGB565ToRGBA8888_loop n packed = Some out \<and> length out = 4 * n \<and>
     (\<forall>i<n. \<bar>uint (out ! (4 * i)) - uint (data ! (4 * i))\<bar> \<le> 9 \<and>
            \<bar>uint (out ! (4 * i + 1)) - uint (data ! (4 * i + 1))\<bar> \<le> 5 \<and>
            \<bar>uint (out ! (4 * i + 2)) - uint (data ! (4 * i + 2))\<bar> \<le> 9 \<and>
            out ! (4 * i + 3) = 255)"
proof (induction n arbitrary: data packed)
  case 0
  then show ?case by simp
next
  case (Suc n)
  from Suc.prems obtain r g b a rest packed' where
    data: "data = r # g # b # a # rest"
    and rest: "RGBA8888ToRGB565_loop n rest = Some packed'"
    and packed: "packed = RGBA8888ToRGB565_px r g b # packed'"
    by (rule RGBA8888ToRGB565_loop_SucE)
  from Suc.IH [OF rest] obtain out' where
    out': "RGB565ToRGBA8888_loop n packed' = Some out'"
    and len: "length out' = 4 * n"
    and near: "\<And>i. i < n \<Longrightarrow> \<bar>uint (out' ! (4 * i)) - uint (rest ! (4 * i))\<bar> \<le> 9 \<and>
            \<bar>uint (out' ! (4 * i + 1)) - uint (rest ! (4 * i + 1))\<bar> \<le> 5 \<and>
            \<bar>uint (out' ! (4 * i + 2)) - uint (rest ! (4 * i + 2))\<bar> \<le> 9 \<and>
            out' ! (4 * i + 3) = 255"
    by blast
  define px where "px = RGB565ToRGBA8888_px (RGBA8888ToRGB565_px r g b)"
  have px: "px = [ucast (expand5 (ucast (drop_bit 3 r))), ucast (expand6 (ucast (drop_bit 2 g))),
                  ucast (expand5 (ucast (drop_bit 3 b))), 255]"
    unfolding px_def RGB565ToRGBA8888_px_def RGB565_exprs_of_px by simp
  have run: "RGB565ToRGBA8888_loop (Suc n) packed = Some (px @ out')"
    by (simp add: packed out' px_def)
  have "\<bar>uint ((px @ out') ! (4 * i)) - uint (data ! (4 * i))\<bar> \<le> 9 \<and>
        \<bar>uint ((px @ out') ! (4 * i + 1)) - uint (data ! (4 * i + 1))\<bar> \<le> 5 \<and>
        \<bar>uint ((px @ out') ! (4 * i + 2)) - uint (data ! (4 * i + 2))\<bar> \<le> 9 \<and>
        (px @ out') ! (4 * i + 3) = 255" if "i < Suc n" for i
  proof (cases i)
    case 0
    then show ?thesis
      unfolding px data
      using chan5(2) [of r] chan6(2) [of g] chan5(2) [of b] by simp
  next
    case (Suc j)
    with that have "j < n" by simp
    from near [OF this] show ?thesis
      unfolding px data Suc by (simp only: append_Cons append_Nil nth_quad)
  qed
  then show ?case using run len by (simp add: px)
qed

lemma rgba4444_roundtrip_loop:
  "RGBA8888ToRGBA4444_loop n data = Some packed \<Longrightarrow>
   \<exists>out. RGBA4444ToRGBA8888_loop n packed = Some out \<and> length out = 4 * n \<and>
     (\<forall>i<4 * n. \<bar>uint (out ! i) - uint (data ! i)\<bar> \<le> 15)"
proof (induction n arbitrary: data packed)
  case 0
  then show ?case by simp
next
  case (Suc n)
  from Suc.prems obtain r g b a rest packed' where
    data: "data = r # g # b # a # rest"
    and rest: "RGBA8888ToRGBA4444_loop n rest = Some packed'"
    and packed: "packed = RGBA8888ToRGBA4444_px r g b a # packed'"
    by (rule RGBA8888ToRGBA4444_loop_SucE)
  from Suc.IH [OF rest] obtain out' where
    out': "RGBA4444ToRGBA8888_loop n packed' = Some out'"
    and len: "length out' = 4 * n"
    and near: "\<And>i. i < 4 * n \<Longrightarrow> \<bar>uint (out' ! i) - uint (rest ! i)\<bar> \<le> 15"
    by blast
  define px where "px = RGBA4444ToRGBA8888_px (RGBA8888ToRGBA4444_px r g b a)"
  have px: "px = [ucast (expand4 (ucast (drop_bit 4 r))), ucast (expand4 (ucast (drop_bit 4 g))),
                  ucast (expand4 (ucast (drop_bit 4 b))), ucast (expand4 (ucast (drop_bit 4 a)))]"
    unfolding px_def RGBA4444ToRGBA8888_px_def RGBA4444_exprs_of_px by simp
  have run: "RGBA4444ToRGBA8888_loop (Suc n) packed = Some (px @ out')"
    by (simp add: packed out' px_def)
  have "\<bar>uint ((px @ out') ! i) - uint (data ! i)\<bar> \<le> 15" if lt: "i < 4 * Suc n" for i
  proof -
    consider "i = 0" | "i = 1" | "i = 2" | "i = 3" | j where "i = Suc (Suc (Suc (Suc j)))" "j < 4 * n"
    proof -
      have "i = 0 \<or> i = 1 \<or> i = 2 \<or> i = 3 \<or> (\<exists>j. i = Suc (Suc (Suc (Suc j))) \<and> j < 4 * n)"
        using lt by presburger
      then show ?thesis using that by blast
    qed
    then show ?thesis
    proof cases
      case 5
      then show ?thesis unfolding px data using near [of j] by simp
    qed (simp_all add: px data chan4(2))
  qed
  then show ?case using run len by (simp add: px)
qed

lemma round_half_div:
  assumes "odd d" 
  shows "round (rat_of_nat n / rat_of_nat d) = int ((n + d div 2) div d)"
proof -
  obtain h where d: "d = 2 * h + 1" using assms by (auto elim: oddE)
  have "rat_of_nat n / rat_of_nat d + 1 / 2 = rat_of_nat (2 * n + d) / rat_of_nat (2 * d)"
    using d by (simp add: field_simps)
  then have "round (rat_of_nat n / rat_of_nat d) = int ((2 * n + d) div (2 * d))"
    unfolding round_def by (simp only: floor_divide_of_nat_eq)
  also have "(2 * n + d) div (2 * d) = (n + h) div d"
  proof -
    have "(2 * n + d) div (2 * d) = ((2 * n + d) div 2) div d"
      by (simp add: div_mult2_eq)
    also have "(2 * n + d) div 2 = n + h" using d by simp
    finally show ?thesis .
  qed
  also have "h = d div 2" using d by simp
  finally show ?thesis .
qed

lemma near_half_div:
  assumes "odd d" 
  shows "\<bar>rat_of_int (int ((n + d div 2) div d)) - rat_of_nat n / rat_of_nat d\<bar> < 1 / 2"
proof -
  obtain h where d: "d = 2 * h + 1" using assms by (auto elim: oddE)
  define q where "q = (n + h) div d"
  define r where "r = (n + h) mod d"
  have nq: "n + h = q * d + r"
    unfolding q_def r_def by simp
  have "0 < d" using d by simp
  then have r: "r < d"
    unfolding r_def by simp
  have dpos: "0 < rat_of_nat d" using d by simp
  have "rat_of_nat n = rat_of_nat q * rat_of_nat d + rat_of_nat r - rat_of_nat h"
    using nq by (metis add_diff_cancel_right' of_nat_add of_nat_mult)
  then have "rat_of_nat q - rat_of_nat n / rat_of_nat d = (rat_of_nat h - rat_of_nat r) / rat_of_nat d"
    using dpos by (simp add: field_simps)
  moreover have "\<bar>(rat_of_nat h - rat_of_nat r) / rat_of_nat d\<bar> < 1 / 2"
  proof -
    have "\<bar>2 * (int h - int r)\<bar> < int d" using r d by auto
    then have "rat_of_int \<bar>2 * (int h - int r)\<bar> < rat_of_int (int d)"
      by (simp only: of_int_less_iff)
    moreover have "rat_of_int \<bar>2 * (int h - int r)\<bar> = 2 * \<bar>rat_of_nat h - rat_of_nat r\<bar>"
      by (simp add: abs_if)
    ultimately have "2 * \<bar>rat_of_nat h - rat_of_nat r\<bar> < rat_of_nat d" by simp
    then show ?thesis using dpos by (simp add: field_simps)
  qed
  ultimately show ?thesis using d by (simp add: q_def)
qed

lemma RGB565_exprs_le: "e \<in> set (RGB565ToRGBA8888_exprs c) \<Longrightarrow> unat e \<le> 255"
  unfolding RGB565ToRGBA8888_exprs_alt Let_def mask5_num mask6_num
  using field5_back(1) [OF unat_and_mask_less [of _ 5, simplified]]
        field6_back(1) [OF unat_and_mask_less [of _ 6, simplified]]
  by auto

lemma RGBA4444_exprs_le: "e \<in> set (RGBA4444ToRGBA8888_exprs c) \<Longrightarrow> unat e \<le> 255"
  unfolding RGBA4444ToRGBA8888_exprs_alt Let_def mask4_num
  using field4_back(1) [OF unat_and_mask_less [of _ 4, simplified]]
  by auto

lemma RGB565_px_quad: "\<exists>r g b a. RGB565ToRGBA8888_px c = [r, g, b, a]"
  by (simp add: RGB565ToRGBA8888_px_def RGB565ToRGBA8888_exprs_alt Let_def)

lemma RGBA4444_px_quad: "\<exists>r g b a. RGBA4444ToRGBA8888_px c = [r, g, b, a]"
  by (simp add: RGBA4444ToRGBA8888_px_def RGBA4444ToRGBA8888_exprs_alt Let_def)

lemma rgb565_repack_loop:
  "n \<le> length codes \<Longrightarrow>
   \<exists>rgba. RGB565ToRGBA8888_loop n codes = Some rgba \<and>
          RGBA8888ToRGB565_loop n rgba = Some (take n codes)"
proof (induction n arbitrary: codes)
  case 0
  show ?case by simp
next
  case (Suc n)
  then obtain c cs where codes: "codes = c # cs" and "n \<le> length cs"
    by (auto simp: Suc_le_length_iff)
  from Suc.IH [OF this(2)] obtain rgba where
    rgba: "RGB565ToRGBA8888_loop n cs = Some rgba"
    and again: "RGBA8888ToRGB565_loop n rgba = Some (take n cs)"
    by blast
  obtain r g b a where px: "RGB565ToRGBA8888_px c = [r, g, b, a]"
    using RGB565_px_quad by blast
  have "RGBA8888ToRGB565_px r g b = c" using px by (rule RGB565_repack_px)
  then show ?case by (simp add: codes rgba px again)
qed

lemma rgba4444_repack_loop:
  "n \<le> length codes \<Longrightarrow>
   \<exists>rgba. RGBA4444ToRGBA8888_loop n codes = Some rgba \<and>
          RGBA8888ToRGBA4444_loop n rgba = Some (take n codes)"
proof (induction n arbitrary: codes)
  case 0
  show ?case by simp
next
  case (Suc n)
  then obtain c cs where codes: "codes = c # cs" and "n \<le> length cs"
    by (auto simp: Suc_le_length_iff)
  from Suc.IH [OF this(2)] obtain rgba where
    rgba: "RGBA4444ToRGBA8888_loop n cs = Some rgba"
    and again: "RGBA8888ToRGBA4444_loop n rgba = Some (take n cs)"
    by blast
  obtain r g b a where px: "RGBA4444ToRGBA8888_px c = [r, g, b, a]"
    using RGBA4444_px_quad by blast
  have "RGBA8888ToRGBA4444_px r g b a = c" using px by (rule RGBA4444_repack_px)
  then show ?case by (simp add: codes rgba px again)
qed

section \<open>Single-precision rounding: exactness and error\<close>

subsection \<open>Rounding to an integer\<close>

lemma rne_of_int: "rne (rat_of_int z) = z"
  by (simp add: rne_def)

lemma rne_cases:
  "rne x = \<lfloor>x\<rfloor> \<or> rne x = \<lfloor>x\<rfloor> + 1"
  by (simp add: rne_def Let_def)

lemma rne_error: "\<bar>rat_of_int (rne x) - x\<bar> \<le> 1 / 2"
proof -
  have "rat_of_int \<lfloor>x\<rfloor> \<le> x" "x < rat_of_int \<lfloor>x\<rfloor> + 1" by linarith+
  then show ?thesis
    by (auto simp add: rne_def Let_def)
qed

lemma rne_ge: "rat_of_int z \<le> x \<Longrightarrow> z \<le> rne x"
proof -
  assume "rat_of_int z \<le> x"
  then have "z \<le> \<lfloor>x\<rfloor>" by (simp add: le_floor_iff)
  then show ?thesis using rne_cases [of x] by linarith
qed

lemma rne_le: "x \<le> rat_of_int z \<Longrightarrow> rne x \<le> z"
proof (cases "x = rat_of_int z")
  case True
  then show ?thesis by (simp add: rne_of_int)
next
  case False
  assume "x \<le> rat_of_int z"
  with False have "x < rat_of_int z" by simp
  then have "\<lfloor>x\<rfloor> < z" by (simp add: floor_less_iff)
  then show ?thesis using rne_cases [of x] by linarith
qed

lemma rne_nonneg: "0 \<le> x \<Longrightarrow> 0 \<le> rne x"
  using rne_ge [of 0 x] by simp

subsection \<open>The exponent\<close>

lemma ilog2_bounds:
  assumes "0 < q"
  shows "2 powi (ilog2 q) \<le> q" and "q < 2 powi (ilog2 q + 1)"
proof -
  have "2 powi (ilog2 q) \<le> q \<and> q < 2 powi (ilog2 q + 1)"
  proof (cases "1 \<le> q")
    case True
    define n where "n = \<lfloor>q\<rfloor>"
    have n: "0 < n" "rat_of_int n \<le> q" "q < rat_of_int n + 1"
      using True unfolding n_def by (simp, linarith, linarith)
    have b: "2 ^ nat (bitlen n - 1) \<le> n" "n < 2 ^ nat (bitlen n)"
      using bitlen_bounds [OF n(1)] by simp_all
    have pos: "1 \<le> bitlen n" using n(1) bitlen_eq_zero_iff [of n] bitlen_nonneg [of n] by linarith
    have e: "ilog2 q = bitlen n - 1" using True by (simp add: ilog2_def n_def)
    have "2 powi (bitlen n - 1) = rat_of_int (2 ^ nat (bitlen n - 1))"
      using pos by (simp add: power_int_nonneg_exp)
    also have "\<dots> \<le> rat_of_int n" using b(1) by (simp only: of_int_le_iff)
    finally have lo: "2 powi (bitlen n - 1) \<le> q" using n(2) by linarith
    have "n + 1 \<le> 2 ^ nat (bitlen n)" using b(2) by linarith
    then have "rat_of_int (n + 1) \<le> rat_of_int (2 ^ nat (bitlen n))"
      by (simp only: of_int_le_iff)
    also have "\<dots> = 2 powi (bitlen n - 1 + 1)"
      using pos by (simp add: power_int_nonneg_exp)
    finally have hi: "q < 2 powi (bitlen n - 1 + 1)" using n(3) by simp
    show ?thesis unfolding e using lo hi by blast
  next
    case False
    define t where "t = 1 / q"
    define m where "m = \<lceil>t\<rceil> - 1"
    have t: "1 < t" using False assms by (simp add: t_def)
    then have tpos: "0 < t" by simp
    have m: "0 < m" "rat_of_int m < t" "t \<le> rat_of_int m + 1"
      using t unfolding m_def by (simp add: less_ceiling_iff, linarith, linarith)
    have b: "2 ^ nat (bitlen m - 1) \<le> m" "m < 2 ^ nat (bitlen m)"
      using bitlen_bounds [OF m(1)] by simp_all
    have pos: "1 \<le> bitlen m" using m(1) bitlen_eq_zero_iff [of m] bitlen_nonneg [of m] by linarith
    have e: "ilog2 q = - bitlen m" using False by (simp add: ilog2_def m_def t_def)
    have q: "q = 1 / t" using assms by (simp add: t_def)
    have "m + 1 \<le> 2 ^ nat (bitlen m)" using b(2) by linarith
    then have "rat_of_int (m + 1) \<le> rat_of_int (2 ^ nat (bitlen m))"
      by (simp only: of_int_le_iff)
    also have "\<dots> = 2 powi (bitlen m)"
      using pos by (simp add: power_int_nonneg_exp)
    finally have "t \<le> 2 powi (bitlen m)" using m(3) by simp
    then have "1 / (2 powi (bitlen m)) \<le> 1 / t"
      using tpos by (intro divide_left_mono) (simp_all add: mult_pos_pos)
    then have lo: "2 powi (- bitlen m) \<le> q"
      unfolding q by (simp add: power_int_minus_divide)
    have "2 powi (bitlen m - 1) = rat_of_int (2 ^ nat (bitlen m - 1))"
      using pos by (simp add: power_int_nonneg_exp)
    also have "\<dots> \<le> rat_of_int m" using b(1) by (simp only: of_int_le_iff)
    finally have "2 powi (bitlen m - 1) < t" using m(2) by linarith
    then have "1 / t < 1 / (2 powi (bitlen m - 1))"
      using tpos by (intro divide_strict_left_mono) (simp_all add: mult_pos_pos)
    also have "1 / (2 powi (bitlen m - 1)) = (2::rat) powi (- bitlen m + 1)"
      using power_int_minus_divide [of "2::rat" "bitlen m - 1"] by simp
    finally have hi: "q < 2 powi (- bitlen m + 1)" unfolding q .
    show ?thesis unfolding e using lo hi by blast
  qed
  then show "2 powi (ilog2 q) \<le> q" and "q < 2 powi (ilog2 q + 1)" by blast+
qed

subsection \<open>Rounding to a float\<close>

lemma fl_zero: "fl 0 = 0"
  by (simp add: fl_def)

lemma fl_unfold:
  "q \<noteq> 0 \<Longrightarrow> fl q = rat_of_int (rne (q / 2 powi (ilog2 \<bar>q\<bar> - 23))) * 2 powi (ilog2 \<bar>q\<bar> - 23)"
  by (simp add: fl_def Let_def)

lemma powi_pos: "0 < (2::rat) powi k"
  by simp

lemma powi_less_exp: "(2::rat) powi a < 2 powi b \<Longrightarrow> a < b"
proof (rule ccontr)
  assume lt: "(2::rat) powi a < 2 powi b" and "\<not> a < b"
  then have "b \<le> a" by simp
  then have "(2::rat) powi b \<le> 2 powi a" by (intro power_int_increasing) simp_all
  with lt show False by simp
qed

lemma powi_split: "(2::rat) powi (a + b) = 2 powi a * 2 powi b"
  by (simp add: power_int_add)

lemma powi_diff: "(2::rat) powi (a - b) = 2 powi a / 2 powi b"
  by (simp add: power_int_diff)

lemma powi_24: "(2::rat) powi (e + 1) = 2 ^ 24 * 2 powi (e - 23)"
proof -
  have "e + 1 = 24 + (e - 23)" by simp
  then have "(2::rat) powi (e + 1) = 2 powi (24 + (e - 23))" by (rule arg_cong)
  also have "\<dots> = 2 powi 24 * 2 powi (e - 23)" by (rule powi_split)
  finally show ?thesis by simp
qed

lemma fl_error:
  "\<bar>fl q - q\<bar> \<le> \<bar>q\<bar> / 2 ^ 24"
proof (cases "q = 0")
  case True
  then show ?thesis by (simp add: fl_zero)
next
  case False
  define e where "e = ilog2 \<bar>q\<bar>"
  define u where "u = (2::rat) powi (e - 23)"
  have upos: "0 < u" by (simp add: u_def)
  have "2 powi e \<le> \<bar>q\<bar>" unfolding e_def using False by (intro ilog2_bounds) simp
  then have u: "u \<le> \<bar>q\<bar> / 2 ^ 23"
    unfolding u_def powi_diff by (simp add: divide_right_mono)
  have "fl q - q = (rat_of_int (rne (q / u)) - q / u) * u"
    using False upos by (simp add: fl_unfold e_def u_def field_simps)
  then have "\<bar>fl q - q\<bar> = \<bar>rat_of_int (rne (q / u)) - q / u\<bar> * u"
    using upos by (simp add: abs_mult)
  also have "\<dots> \<le> (1 / 2) * u"
    using rne_error [of "q / u"] upos by (intro mult_right_mono) simp_all
  also have "\<dots> \<le> (1 / 2) * (\<bar>q\<bar> / 2 ^ 23)"
    using u by simp
  finally show ?thesis by simp
qed

lemma fl_nonneg: "0 \<le> q \<Longrightarrow> 0 \<le> fl q"
proof (cases "q = 0")
  case True
  then show ?thesis by (simp add: fl_zero)
next
  case False
  assume "0 \<le> q"
  then have "0 \<le> q / 2 powi (ilog2 \<bar>q\<bar> - 23)" by simp
  then have "0 \<le> rne (q / 2 powi (ilog2 \<bar>q\<bar> - 23))" by (rule rne_nonneg)
  then show ?thesis using False by (simp add: fl_unfold)
qed

lemma fl_upper: "0 \<le> q \<Longrightarrow> fl q \<le> q * (1 + 1 / 2 ^ 24)"
  using fl_error [of q] by (simp add: field_simps abs_if split: if_splits)

lemma fl_exact:
  assumes "\<bar>m\<bar> < 2 ^ 24"
  shows "fl (rat_of_int m * 2 powi k) = rat_of_int m * 2 powi k"
proof (cases "m = 0")
  case True
  then show ?thesis by (simp add: fl_zero)
next
  case False
  define q where "q = rat_of_int m * 2 powi k"
  define e where "e = ilog2 \<bar>q\<bar>"
  have q0: "q \<noteq> 0" using False by (simp add: q_def)
  have absq: "\<bar>q\<bar> = rat_of_int \<bar>m\<bar> * 2 powi k"
    by (simp add: q_def abs_mult)
  have "rat_of_int \<bar>m\<bar> < rat_of_int (2 ^ 24)"
    using assms by (simp only: of_int_less_iff)
  then have "\<bar>q\<bar> < 2 ^ 24 * 2 powi k"
    unfolding absq by (intro mult_strict_right_mono) simp_all
  also have "\<dots> = 2 powi (24 + k)"
    by (simp add: powi_split)
  finally have "\<bar>q\<bar> < 2 powi (24 + k)" .
  moreover have "2 powi e \<le> \<bar>q\<bar>"
    unfolding e_def using q0 by (intro ilog2_bounds) simp
  ultimately have "(2::rat) powi e < 2 powi (24 + k)" by linarith
  then have "e < 24 + k" by (rule powi_less_exp)
  then have j: "0 \<le> k - e + 23" by simp
  have "q / 2 powi (e - 23) = rat_of_int m * 2 powi (k - (e - 23))"
    unfolding q_def by (simp add: powi_diff)
  also have "k - (e - 23) = k - e + 23" by simp
  also have "(2::rat) powi (k - e + 23) = rat_of_int (2 ^ nat (k - e + 23))"
    using j by (simp add: power_int_nonneg_exp)
  finally have sc: "q / 2 powi (e - 23) = rat_of_int (m * 2 ^ nat (k - e + 23))"
    by simp
  have "fl q = rat_of_int (rne (q / 2 powi (e - 23))) * 2 powi (e - 23)"
    unfolding e_def using q0 by (rule fl_unfold)
  then have "fl q = rat_of_int (m * 2 ^ nat (k - e + 23)) * 2 powi (e - 23)"
    unfolding sc rne_of_int .
  also have "\<dots> = rat_of_int m * (2 powi (k - e + 23) * 2 powi (e - 23))"
    using j by (simp add: power_int_nonneg_exp)
  also have "2 powi (k - e + 23) * 2 powi (e - 23) = (2::rat) powi k"
    by (simp flip: powi_split)
  finally show ?thesis unfolding q_def .
qed

lemma fl_of_int: "\<bar>m\<bar> < 2 ^ 24 \<Longrightarrow> fl (rat_of_int m) = rat_of_int m"
  using fl_exact [of m 0] by simp

lemma fl_repr: "\<exists>m k. \<bar>m\<bar> < 2 ^ 24 \<and> fl q = rat_of_int m * 2 powi k"
proof (cases "q = 0")
  case True
  then have "\<bar>0::int\<bar> < 2 ^ 24 \<and> fl q = rat_of_int 0 * 2 powi 0" by (simp add: fl_zero)
  then show ?thesis by blast
next
  case False
  define e where "e = ilog2 \<bar>q\<bar>"
  define u where "u = (2::rat) powi (e - 23)"
  define M where "M = rne (q / u)"
  have upos: "0 < u" by (simp add: u_def)
  have fl: "fl q = rat_of_int M * u"
    using False by (simp add: fl_unfold e_def u_def M_def)
  have "\<bar>q\<bar> < 2 powi (e + 1)" unfolding e_def using False by (intro ilog2_bounds) simp
  also have "\<dots> = 2 ^ 24 * u"
    unfolding u_def by (rule powi_24)
  finally have "\<bar>q\<bar> / u < 2 ^ 24"
    using upos by (simp add: pos_divide_less_eq)
  then have "\<bar>q / u\<bar> < 2 ^ 24" using upos by (simp only: abs_divide abs_of_pos)
  then have b: "q / u \<le> rat_of_int (2 ^ 24)" "rat_of_int (- (2 ^ 24)) \<le> q / u"
    by (simp_all add: abs_if split: if_splits)
  have M: "M \<le> 2 ^ 24" "- (2 ^ 24) \<le> M"
    unfolding M_def using rne_le [OF b(1)] rne_ge [OF b(2)] by simp_all
  consider "\<bar>M\<bar> < 2 ^ 24" | "M = 2 ^ 24" | "M = - (2 ^ 24)" using M by linarith
  then show ?thesis
  proof cases
    case 1
    then show ?thesis using fl unfolding u_def by blast
  next
    case 2
    have "fl q = rat_of_int 1 * 2 powi (e + 1)"
      unfolding fl 2 u_def by (simp add: powi_24)
    moreover have "\<bar>1::int\<bar> < 2 ^ 24" by simp
    ultimately show ?thesis by blast
  next
    case 3
    have "fl q = rat_of_int (- 1) * 2 powi (e + 1)"
      unfolding fl 3 u_def by (simp add: powi_24)
    moreover have "\<bar>- 1::int\<bar> < 2 ^ 24" by simp
    ultimately show ?thesis by blast
  qed
qed

lemma fl_idem: "fl (fl q) = fl q"
  using fl_repr [of q] fl_exact by metis

subsection \<open>The fractional part\<close>

lemma sint32_of_int: "- (2 ^ 31) \<le> s \<Longrightarrow> s < 2 ^ 31 \<Longrightarrow> sint (word_of_int s :: 32 word) = s"
  by (simp add: sint_sbintrunc' signed_take_bit_int_eq_self)

lemma float_frac_exact:
  assumes w: "fl w = w" and pos: "0 \<le> w"
  shows "fl (rat_of_int \<lfloor>w\<rfloor>) = rat_of_int \<lfloor>w\<rfloor>"
    and "fl (w - rat_of_int \<lfloor>w\<rfloor>) = w - rat_of_int \<lfloor>w\<rfloor>"
proof -
  obtain m k where m: "\<bar>m\<bar> < 2 ^ 24" and wm: "w = rat_of_int m * 2 powi k"
    using fl_repr [of w] w by metis
  have m0: "0 \<le> m"
  proof (rule ccontr)
    assume "\<not> 0 \<le> m"
    then have "rat_of_int m < 0" by simp
    then have "rat_of_int m * 2 powi k < 0" by (intro mult_neg_pos) simp_all
    with pos wm show False by simp
  qed
  have "fl (rat_of_int \<lfloor>w\<rfloor>) = rat_of_int \<lfloor>w\<rfloor> \<and>
        fl (w - rat_of_int \<lfloor>w\<rfloor>) = w - rat_of_int \<lfloor>w\<rfloor>"
  proof (cases "0 \<le> k")
    case True
    then have "w = rat_of_int (m * 2 ^ nat k)"
      unfolding wm by (simp add: power_int_nonneg_exp)
    then have fw: "rat_of_int \<lfloor>w\<rfloor> = w" by (metis floor_of_int)
    have "fl (w - w) = w - w" by (simp add: fl_zero)
    then show ?thesis unfolding fw using w by blast
  next
    case False
    define d :: int where "d = 2 ^ nat (- k)"
    have dpos: "0 < d" by (simp add: d_def)
    have "(2::rat) powi k = 1 / rat_of_int d"
      using False power_int_minus_divide [of "2::rat" "- k"]
      by (simp add: d_def power_int_nonneg_exp)
    then have wd: "w = rat_of_int m / rat_of_int d" and pk: "1 / rat_of_int d = 2 powi k"
      unfolding wm by simp_all
    have fw: "\<lfloor>w\<rfloor> = m div d" unfolding wd by (rule floor_divide_of_int_eq)
    have "0 \<le> m div d" "m div d \<le> m"
      using m0 dpos zdiv_mono2 [of m 1 d] by (simp_all add: pos_imp_zdiv_nonneg_iff)
    then have "\<bar>m div d\<bar> < 2 ^ 24" using m by linarith
    then have a: "fl (rat_of_int \<lfloor>w\<rfloor>) = rat_of_int \<lfloor>w\<rfloor>"
      unfolding fw by (rule fl_of_int)
    have split: "rat_of_int m = rat_of_int (m div d) * rat_of_int d + rat_of_int (m mod d)"
      by (metis of_int_add of_int_mult div_mult_mod_eq)
    have "(qq * dd + r) / dd - qq = r / dd" if "0 < dd" for qq dd r :: rat
      using that by (simp add: field_simps)
    from this [of "rat_of_int d" "rat_of_int (m div d)" "rat_of_int (m mod d)"]
    have "rat_of_int m / rat_of_int d - rat_of_int (m div d) = rat_of_int (m mod d) / rat_of_int d"
      using dpos unfolding split [symmetric] by simp
    then have "w - rat_of_int \<lfloor>w\<rfloor> = rat_of_int (m mod d) / rat_of_int d"
      unfolding fw unfolding wd .
    also have "\<dots> = rat_of_int (m mod d) * (1 / rat_of_int d)"
      by simp
    also have "\<dots> = rat_of_int (m mod d) * 2 powi k"
      unfolding pk ..
    finally have fr: "w - rat_of_int \<lfloor>w\<rfloor> = rat_of_int (m mod d) * 2 powi k" .
    have "0 \<le> m mod d" "m mod d \<le> m"
      using m0 dpos by (simp_all add: zmod_le_nonneg_dividend)
    then have "\<bar>m mod d\<bar> < 2 ^ 24" using m by linarith
    then have "fl (w - rat_of_int \<lfloor>w\<rfloor>) = w - rat_of_int \<lfloor>w\<rfloor>"
      unfolding fr by (rule fl_exact)
    with a show ?thesis by blast
  qed
  then show "fl (rat_of_int \<lfloor>w\<rfloor>) = rat_of_int \<lfloor>w\<rfloor>"
    and "fl (w - rat_of_int \<lfloor>w\<rfloor>) = w - rat_of_int \<lfloor>w\<rfloor>" by blast+
qed

lemma fract_exact:
  assumes w: "fl w = w" and pos: "0 \<le> w" and lt: "w < 2 ^ 31"
  shows "fract w = Some (w - rat_of_int \<lfloor>w\<rfloor>)"
proof -
  have t: "trunc0 w = \<lfloor>w\<rfloor>" using pos by (simp add: trunc0_def)
  have "0 \<le> \<lfloor>w\<rfloor>" using pos by simp
  moreover have "\<lfloor>w\<rfloor> < 2 ^ 31" using lt by (simp add: floor_less_iff)
  ultimately have r: "- (2 ^ 31) \<le> \<lfloor>w\<rfloor>" "\<lfloor>w\<rfloor> < 2 ^ 31" by linarith+
  have "float_to_int32 w = Some (word_of_int \<lfloor>w\<rfloor>)"
    using r by (simp add: float_to_int32_def t)
  moreover have "float_of_int32 (word_of_int \<lfloor>w\<rfloor>) = rat_of_int \<lfloor>w\<rfloor>"
    unfolding float_of_int32_def sint32_of_int [OF r] using w pos by (rule float_frac_exact)
  ultimately show ?thesis
    using float_frac_exact(2) [OF w pos] by (simp add: fract_def fsub_def)
qed

lemma fract_range:
  assumes "fl w = w" "0 \<le> w" "w < 2 ^ 31"
  shows "\<exists>f. fract w = Some f \<and> fl f = f \<and> 0 \<le> f \<and> f < 1"
proof -
  have "0 \<le> w - rat_of_int \<lfloor>w\<rfloor>" "w - rat_of_int \<lfloor>w\<rfloor> < 1" by linarith+
  then show ?thesis
    using fract_exact [OF assms] float_frac_exact(2) [OF assms(1,2)] by simp
qed

subsection \<open>Interleaved gradient noise\<close>

lemma magic0_val: "magic0 = 9007427 / 2 ^ 27"
  by code_simp
lemma magic1_val: "magic1 = 12535184 / 2 ^ 31"
  by code_simp
lemma magic2_val: "magic2 = 13889154 / 2 ^ 18"
  by code_simp

lemma fmul_bound:
  assumes "0 \<le> a" "a \<le> A" "0 \<le> b" "b \<le> B"
  shows "0 \<le> fmul a b" and "fmul a b \<le> A * B * (1 + 1 / 2 ^ 24)"
proof -
  have ab: "0 \<le> a * b" "a * b \<le> A * B"
    using assms by (simp_all add: mult_mono)
  show "0 \<le> fmul a b" unfolding fmul_def using ab(1) by (rule fl_nonneg)
  have "fmul a b \<le> a * b * (1 + 1 / 2 ^ 24)"
    unfolding fmul_def using ab(1) by (rule fl_upper)
  also have "\<dots> \<le> A * B * (1 + 1 / 2 ^ 24)"
    using ab(2) by (intro mult_right_mono) simp_all
  finally show "fmul a b \<le> A * B * (1 + 1 / 2 ^ 24)" .
qed

lemma fadd_bound:
  assumes "0 \<le> a" "a \<le> A" "0 \<le> b" "b \<le> B"
  shows "0 \<le> fadd a b" and "fadd a b \<le> (A + B) * (1 + 1 / 2 ^ 24)"
proof -
  have ab: "0 \<le> a + b" "a + b \<le> A + B"
    using assms by simp_all
  show "0 \<le> fadd a b" unfolding fadd_def using ab(1) by (rule fl_nonneg)
  have "fadd a b \<le> (a + b) * (1 + 1 / 2 ^ 24)"
    unfolding fadd_def using ab(1) by (rule fl_upper)
  also have "\<dots> \<le> (A + B) * (1 + 1 / 2 ^ 24)"
    using ab(2) by (intro mult_right_mono) simp_all
  finally show "fadd a b \<le> (A + B) * (1 + 1 / 2 ^ 24)" .
qed

lemma InterleavedGradientNoise_range:
  assumes u: "0 \<le> u" "u \<le> 2 ^ 33" and v: "0 \<le> v" "v \<le> 2 ^ 33"
  shows "\<exists>r. InterleavedGradientNoise u v = Some r \<and> fl r = r \<and> 0 \<le> r \<and> r < 1"
proof -
  define w where "w = fadd (fmul u magic0) (fmul v magic1)"
  have m0: "0 \<le> magic0" "magic0 \<le> 1 / 8" and m1: "0 \<le> magic1" "magic1 \<le> 1 / 128"
    and m2: "0 \<le> magic2" "magic2 \<le> 64"
    by (simp_all add: magic0_val magic1_val magic2_val)
  note a = fmul_bound [OF u m0] 
  note b = fmul_bound [OF v m1]
  note c = fadd_bound [OF a b]
  have "w \<le> (2 ^ 33 * (1 / 8) * (1 + 1 / 2 ^ 24) + 2 ^ 33 * (1 / 128) * (1 + 1 / 2 ^ 24)) * (1 + 1 / 2 ^ 24)"
    unfolding w_def by (rule c)
  also have "\<dots> < 2 ^ 31" by simp
  finally have w: "fl w = w" "0 \<le> w" "w < 2 ^ 31"
    using c(1) by (simp_all add: w_def fadd_def fl_idem)
  from fract_range [OF w] obtain f where
    f: "fract w = Some f" "0 \<le> f" "f < 1" by blast
  define w2 where "w2 = fmul magic2 f"
  have "f \<le> 1" using f by simp
  note d = fmul_bound [OF m2 f(2) this]
  have "w2 \<le> 64 * 1 * (1 + 1 / 2 ^ 24)" unfolding w2_def by (rule d)
  also have "\<dots> < 2 ^ 31" by simp
  finally have w2: "fl w2 = w2" "0 \<le> w2" "w2 < 2 ^ 31"
    using d(1) by (simp_all add: w2_def fmul_def fl_idem)
  from fract_range [OF w2] show ?thesis
    by (simp add: InterleavedGradientNoise_def w_def [symmetric] f w2_def [symmetric])
qed

section \<open>Quantizer: saturation\<close>

lemma sint16_of_int: "- 32768 \<le> s \<Longrightarrow> s < 32768 \<Longrightarrow> sint (word_of_int s :: 16 word) = s"
  by (simp add: sint_sbintrunc' signed_take_bit_int_eq_self)

lemma uint8_of_int: "0 \<le> s \<Longrightarrow> s \<le> 255 \<Longrightarrow> uint (word_of_int s :: u8) = s"
  by (simp add: uint_word_of_int)

lemma uint8_range: "0 \<le> uint (v::u8)" "uint (v::u8) \<le> 255"
  using uint_lt2p [of v] by simp_all

lemma sint8_range: "- 128 \<le> sint (n :: 8 word)" "sint (n :: 8 word) \<le> 127"
  using sint_ge [of n] sint_lt [of n] by simp_all

lemma addNoise_saturates:
  "uint (addNoise v noise) = max 0 (min 255 (uint v + sint noise))"
proof -
  define s where "s = uint v + sint noise"
  have r: "- 128 \<le> s" "s \<le> 382"
    using uint8_range [of v] sint8_range [of noise] unfolding s_def by linarith+
  then have s16: "sint (word_of_int s :: 16 word) = s"
    by (intro sint16_of_int) linarith+
  consider "255 < s" | "s < 0" | "0 \<le> s" "s \<le> 255" by linarith
  then show ?thesis
  proof cases
    case 1
    then show ?thesis
      unfolding addNoise_def Let_def s_def [symmetric] s16 by simp
  next
    case 2
    then show ?thesis
      unfolding addNoise_def Let_def s_def [symmetric] s16 by simp
  next
    case 3
    have "uint (word_of_int s :: 16 word) = s"
      using 3 by (simp add: uint_word_of_int)
    then have "(ucast (word_of_int s :: 16 word) :: u8) = word_of_int s"
      by (simp add: ucast_eq)
    then show ?thesis
      using 3 unfolding addNoise_def Let_def s_def [symmetric] s16
      by (simp add: uint8_of_int)
  qed
qed

lemma clamp255_eq: "clamp255 v = max 0 (min 255 v)"
  by (simp add: clamp255_def max_def min_def)

lemma c_round_clamped:
  assumes "0 \<le> v" "v \<le> 255"
  shows "\<exists>k. c_round v = rat_of_int k \<and> 0 \<le> k \<and> k \<le> 255"
proof -
  have "0 \<le> \<lfloor>v + 1 / 2\<rfloor>" using assms by (simp add: le_floor_iff)
  moreover have "\<lfloor>v + 1 / 2\<rfloor> \<le> 255"
    using assms by (simp add: floor_le_iff)
  ultimately show ?thesis using assms by (simp add: c_round_def)
qed

lemma trunc0_of_int: "trunc0 (rat_of_int k) = k"
  by (simp add: trunc0_def)

lemma ditherBayerValue_saturates:
  "\<exists>w. ditherBayerValue uv m r = Some w \<and>
       rat_of_int (uint w) = c_round (max 0 (min 255 (fadd (float_of_uint8 uv) (fmul r m))))"
proof -
  define v where "v = clamp255 (fadd (float_of_uint8 uv) (fmul r m))"
  have "0 \<le> v" "v \<le> 255" by (simp_all add: v_def clamp255_def)
  then obtain k where k: "c_round v = rat_of_int k" "0 \<le> k" "k \<le> 255"
    using c_round_clamped by blast
  have "ditherBayerValue uv m r = Some (word_of_int k)"
    using k by (simp add: ditherBayerValue_def Let_def v_def [symmetric] float_to_uint8_def trunc0_of_int)
  moreover have "rat_of_int (uint (word_of_int k :: u8)) = c_round v"
    using k by (simp add: uint8_of_int)
  ultimately show ?thesis
    unfolding v_def clamp255_eq by blast
qed

section \<open>DitherPipeline: channels and pixels\<close>

subsection \<open>One dithered channel\<close>

lemma fl_le_pow2:
  assumes "0 < x" "x \<le> 2 powi k"
  shows "fl x \<le> 2 powi k"
proof -
  define e where "e = ilog2 \<bar>x\<bar>"
  define u where "u = (2::rat) powi (e - 23)"
  have upos: "0 < u" by (simp add: u_def)
  have x0: "x \<noteq> 0" using assms by simp
  have "2 powi e \<le> \<bar>x\<bar>" unfolding e_def using x0 by (intro ilog2_bounds) simp
  then have "(2::rat) powi e \<le> 2 powi k" using assms by simp
  then have "e \<le> k"
    by (metis linorder_not_less one_less_numeral_iff power_int_strict_increasing semiring_norm(76))
  then have j: "0 \<le> k - e + 23" by simp
  have "2 powi k / u = (2::rat) powi (k - (e - 23))"
    unfolding u_def by (simp add: powi_diff)
  also have "k - (e - 23) = k - e + 23" by simp
  also have "(2::rat) powi (k - e + 23) = rat_of_int (2 ^ nat (k - e + 23))"
    using j by (simp add: power_int_nonneg_exp)
  finally have ku: "2 powi k / u = rat_of_int (2 ^ nat (k - e + 23))" .
  have "x / u \<le> 2 powi k / u" using assms upos by (simp add: divide_right_mono)
  then have "rne (x / u) \<le> 2 ^ nat (k - e + 23)"
    unfolding ku by (rule rne_le)
  then have "rat_of_int (rne (x / u)) \<le> rat_of_int (2 ^ nat (k - e + 23))"
    by (simp only: of_int_le_iff)
  then have "rat_of_int (rne (x / u)) * u \<le> (2 powi k / u) * u"
    unfolding ku using upos by (intro mult_right_mono) simp_all
  then show ?thesis
    using upos x0 by (simp add: fl_unfold e_def u_def)
qed

lemma fl_le_one: "0 \<le> x \<Longrightarrow> x \<le> 1 \<Longrightarrow> fl x \<le> 1"
  using fl_le_pow2 [of x 0] by (cases "x = 0") (simp_all add: fl_zero)

lemma float_of_uint8_exact: "float_of_uint8 x = rat_of_int (uint x)"
proof -
  have "\<bar>uint x\<bar> < 2 ^ 24" using uint8_range [of x] by simp
  then show ?thesis unfolding float_of_uint8_def by (rule fl_of_int)
qed

lemma fl_abs_le: "\<bar>fl q\<bar> \<le> \<bar>q\<bar> * (1 + 1 / 2 ^ 24)"
proof -
  have "\<bar>fl q\<bar> \<le> \<bar>q\<bar> + \<bar>fl q - q\<bar>" by simp
  also have "\<dots> \<le> \<bar>q\<bar> + \<bar>q\<bar> / 2 ^ 24" using fl_error [of q] by simp
  finally show ?thesis by (simp add: field_simps)
qed

lemma bias_range:
  assumes t: "0 \<le> t" "t \<le> 1" and s: "0 \<le> s" "s \<le> 16"
  shows "\<bar>fsub (fmul t s) (s / 2)\<bar> < s / 2 + 1"
proof -
  define p where "p = fmul t s"
  have p: "0 \<le> p" "p \<le> 1 * s * (1 + 1 / 2 ^ 24)"
    unfolding p_def using fmul_bound [OF t s(1) order_refl] by simp_all
  have "\<bar>p - s / 2\<bar> \<le> s / 2 + s / 2 ^ 24"
    using p s by (simp add: abs_if field_simps)
  then have "\<bar>p - s / 2\<bar> * (1 + 1 / 2 ^ 24) \<le> (s / 2 + s / 2 ^ 24) * (1 + 1 / 2 ^ 24)"
    by (intro mult_right_mono) simp_all
  also have "\<dots> = s / 2 + s * (3 / 2 ^ 25 + 1 / 2 ^ 48)" by (simp add: field_simps)
  also have "\<dots> \<le> s / 2 + 16 * (3 / 2 ^ 25 + 1 / 2 ^ 48)"
    using s by (intro add_left_mono mult_right_mono) simp_all
  also have "\<dots> < s / 2 + 1" by simp
  finally show ?thesis
    using fl_abs_le [of "p - s / 2"] unfolding fsub_def p_def [symmetric] by linarith
qed

lemma trunc0_abs_le:
  assumes "\<bar>q\<bar> < rat_of_int n + 1"
  shows "\<bar>trunc0 q\<bar> \<le> n"
proof (cases "0 \<le> q")
  case True
  then have "0 \<le> \<lfloor>q\<rfloor>" by simp
  moreover have "q < rat_of_int (n + 1)" using assms True by simp
  then have "\<lfloor>q\<rfloor> < n + 1" by (simp only: floor_less_iff)
  ultimately show ?thesis using True by (simp add: trunc0_def)
next
  case False
  then have "\<lceil>q\<rceil> \<le> 0" by (simp add: ceiling_le_iff)
  moreover have "rat_of_int (- n - 1) < q" using assms False by simp
  then have "- n - 1 < \<lceil>q\<rceil>" by (simp only: less_ceiling_iff)
  ultimately show ?thesis using False by (simp add: trunc0_def)
qed

lemma sint8_of_int: "- 128 \<le> s \<Longrightarrow> s \<le> 127 \<Longrightarrow> sint (word_of_int s :: 8 word) = s"
  by (simp add: sint_sbintrunc' signed_take_bit_int_eq_self)

lemma dither_channel_value:
  fixes v step :: u8
  assumes t: "0 \<le> t" "t \<le> 1" and step: "uint step \<le> 16" "even (uint step)"
  defines "T \<equiv> trunc0 (fsub (fmul t (rat_of_int (uint step))) (rat_of_int (uint step) / 2))"
  shows "\<exists>e. dither_channel v t step (step div 2) = Some e \<and>
              uint e = max 0 (min 255 (uint v + T))"
    and "\<bar>T\<bar> \<le> uint step div 2"
proof -
  define s where "s = uint step"
  have si: "0 \<le> s" "s \<le> 16"
    using step(1) uint8_range(1) [of step] by (simp_all add: s_def)
  then have s: "0 \<le> rat_of_int s" "rat_of_int s \<le> 16"
    by simp_all
  obtain h where h: "s = 2 * h" using step(2) unfolding s_def by (auto elim: evenE)
  have half: "rat_of_int (uint (step div 2)) = rat_of_int s / 2" "s div 2 = h"
    by (simp_all add: uint_div_distrib s_def [symmetric] h)
  have "\<bar>fsub (fmul t (rat_of_int s)) (rat_of_int s / 2)\<bar> < rat_of_int s / 2 + 1"
    using t s by (rule bias_range)
  then have "\<bar>fsub (fmul t (rat_of_int s)) (rat_of_int s / 2)\<bar> < rat_of_int h + 1"
    by (simp add: h)
  then have T: "\<bar>T\<bar> \<le> h" unfolding T_def s_def [symmetric] by (rule trunc0_abs_le)
  then show "\<bar>T\<bar> \<le> uint step div 2" unfolding s_def [symmetric] half .
  have "h \<le> 8" using s h by simp
  with T have r: "- 128 \<le> T" "T \<le> 127" by linarith+
  have "float_to_int8 (fsub (fmul t (rat_of_int s)) (rat_of_int s / 2)) = Some (word_of_int T)"
    using r unfolding T_def s_def [symmetric] by (simp add: float_to_int8_def)
  then have "dither_channel v t step (step div 2) = Some (addNoise v (word_of_int T))"
    unfolding dither_channel_def float_of_uint8_exact half s_def [symmetric] by simp
  moreover have "uint (addNoise v (word_of_int T)) = max 0 (min 255 (uint v + T))"
    unfolding addNoise_saturates sint8_of_int [OF r] ..
  ultimately show "\<exists>e. dither_channel v t step (step div 2) = Some e \<and>
              uint e = max 0 (min 255 (uint v + T))" by blast
qed

lemma float_of_uint32_range: "0 \<le> float_of_uint32 x" "float_of_uint32 x \<le> 2 ^ 33"
proof -
  have "uint x \<le> 2 ^ 32" using uint_lt2p [of x] by simp
  then have x2: "rat_of_int (uint x) \<le> rat_of_int (2 ^ 32)"
    by (simp only: of_int_le_iff)
  have "0 \<le> uint x" by simp
  then have x1: "0 \<le> rat_of_int (uint x)"
    by (simp only: of_int_0_le_iff)
  note x = x1 x2
  show "0 \<le> float_of_uint32 x" unfolding float_of_uint32_def using x(1) by (rule fl_nonneg)
  have "float_of_uint32 x \<le> rat_of_int (uint x) * (1 + 1 / 2 ^ 24)"
    unfolding float_of_uint32_def using x(1) by (rule fl_upper)
  also have "\<dots> \<le> rat_of_int (2 ^ 32) * (1 + 1 / 2 ^ 24)"
    using x(2) by (intro mult_right_mono) simp_all
  also have "\<dots> \<le> 2 ^ 33" by simp
  finally show "float_of_uint32 x \<le> 2 ^ 33" .
qed

lemma noise_at_pixel:
  "\<exists>r. InterleavedGradientNoise (float_of_uint32 x) (float_of_uint32 y) = Some r \<and>
       fl r = r \<and> 0 \<le> r \<and> r < 1"
  using float_of_uint32_range [of x] float_of_uint32_range [of y]
  by (intro InterleavedGradientNoise_range)

section \<open>BayerMap: the rescaled tiles\<close>

lemma fold_update_prefix:
  "k \<le> length xs \<Longrightarrow>
   fold (\<lambda>i M. M[i := f (M ! i)]) [0..<k] xs = map f (take k xs) @ drop k xs"
proof (induction k)
  case 0
  show ?case by simp
next
  case (Suc k)
  then have k: "k < length xs" by simp
  define ys where "ys = map f (take k xs) @ drop k xs"
  have len: "length (map f (take k xs)) = k" using k by simp
  have d: "drop k xs = xs ! k # drop (Suc k) xs" using k by (simp add: Cons_nth_drop_Suc)
  have "fold (\<lambda>i M. M[i := f (M ! i)]) [0..<Suc k] xs = ys[k := f (ys ! k)]"
    using Suc.IH k by (simp add: ys_def)
  also have "ys ! k = xs ! k"
    unfolding ys_def using len d by (simp add: nth_append)
  also have "ys[k := f (xs ! k)] = map f (take k xs) @ (f (xs ! k) # drop (Suc k) xs)"
    unfolding ys_def using len d by (simp add: list_update_append)
  also have "\<dots> = map f (take (Suc k) xs) @ drop (Suc k) xs"
    using k by (simp add: take_Suc_conv_app_nth)
  finally show ?case .
qed

lemma bayer_entry:
  assumes "\<bar>k\<bar> < 2 ^ 23" and "0 < j" and "j \<le> 23"
  shows "fsub (fmul (rat_of_int k) (2 powi (- j))) (1 / 2) = rat_of_int k * 2 powi (- j) - 1 / 2"
proof -
  have a: "fmul (rat_of_int k) (2 powi (- j)) = rat_of_int k * 2 powi (- j)"
    unfolding fmul_def using assms(1) by (intro fl_exact) simp
  have "(1 / 2 :: rat) = 2 powi (j - 1) * 2 powi (- j)"
    by (simp flip: powi_split)
  also have "(2::rat) powi (j - 1) = rat_of_int (2 ^ nat (j - 1))"
    using assms(2) by (simp add: power_int_nonneg_exp)
  finally have h: "(1 / 2 :: rat) = rat_of_int (2 ^ nat (j - 1)) * 2 powi (- j)" .
  define P :: int where "P = 2 ^ nat (j - 1)"
  have "nat (j - 1) \<le> 22" using assms by simp
  then have "(2::int) ^ nat (j - 1) \<le> 2 ^ 22" by (intro power_increasing) simp_all
  then have P: "P \<le> 4194304" "0 < P" by (simp_all add: P_def)
  have "\<bar>k\<bar> < 8388608" using assms(1) by simp
  with P have "\<bar>k - P\<bar> < 16777216" by linarith
  then have "\<bar>k - 2 ^ nat (j - 1)\<bar> < 2 ^ 24" by (simp add: P_def)
  then have "fl (rat_of_int (k - 2 ^ nat (j - 1)) * 2 powi (- j)) =
        rat_of_int (k - 2 ^ nat (j - 1)) * 2 powi (- j)" by (rule fl_exact)
  moreover have "rat_of_int (k - 2 ^ nat (j - 1)) * 2 powi (- j) = rat_of_int k * 2 powi (- j) - 1 / 2"
    by (subst h) (simp add: algebra_simps)
  ultimately show ?thesis unfolding fsub_def a by simp
qed

lemma bayer_div:
  "fdiv 1 (fl (rat_of_int (4 * 4))) = 2 powi (- 4)"
  "fdiv 1 (fl (rat_of_int (8 * 8))) = 2 powi (- 6)"
proof -
  have "fl (rat_of_int (4 * 4)) = rat_of_int (4 * 4)" "fl (rat_of_int (8 * 8)) = rat_of_int (8 * 8)"
    by (rule fl_of_int, simp)+
  moreover have "fl (rat_of_int 1 * 2 powi (- 4)) = rat_of_int 1 * 2 powi (- 4)"
    "fl (rat_of_int 1 * 2 powi (- 6)) = rat_of_int 1 * 2 powi (- 6)"
    by (rule fl_exact, simp)+
  ultimately show "fdiv 1 (fl (rat_of_int (4 * 4))) = 2 powi (- 4)"
    "fdiv 1 (fl (rat_of_int (8 * 8))) = 2 powi (- 6)"
    by (simp_all add: fdiv_def power_int_minus_divide)
qed

lemma bayer4_ranks:
  "bayer4 = map rat_of_int [0, 8, 2, 10, 12, 4, 14, 6, 3, 11, 1, 9, 15, 7, 13, 5]"
  "mset [0, 8, 2, 10, 12, 4, 14, 6, 3, 11, 1, 9, 15, 7, 13, 5] = mset (map int [0..<16])"
  "\<forall>k \<in> set [0, 8, 2, 10, 12, 4, 14, 6, 3, 11, 1, 9, 15, 7, 13, 5 :: int]. \<bar>k\<bar> < 2 ^ 23"
    by (simp add: bayer4_def, code_simp, simp)

lemma bayer8_ranks:
  "bayer8 = map rat_of_int
            [ 0, 32,  8, 40,  2, 34, 10, 42,
             48, 16, 56, 24, 50, 18, 58, 26,
             12, 44,  4, 36, 14, 46,  6, 38,
             60, 28, 52, 20, 62, 30, 54, 22,
              3, 35, 11, 43,  1, 33,  9, 41,
             51, 19, 59, 27, 49, 17, 57, 25,
             15, 47,  7, 39, 13, 45,  5, 37,
             63, 31, 55, 23, 61, 29, 53, 21]"
  "mset [ 0, 32,  8, 40,  2, 34, 10, 42,
             48, 16, 56, 24, 50, 18, 58, 26,
             12, 44,  4, 36, 14, 46,  6, 38,
             60, 28, 52, 20, 62, 30, 54, 22,
              3, 35, 11, 43,  1, 33,  9, 41,
             51, 19, 59, 27, 49, 17, 57, 25,
             15, 47,  7, 39, 13, 45,  5, 37,
             63, 31, 55, 23, 61, 29, 53, 21] = mset (map int [0..<64])"
  "\<forall>k \<in> set [ 0, 32,  8, 40,  2, 34, 10, 42,
             48, 16, 56, 24, 50, 18, 58, 26,
             12, 44,  4, 36, 14, 46,  6, 38,
             60, 28, 52, 20, 62, 30, 54, 22,
              3, 35, 11, 43,  1, 33,  9, 41,
             51, 19, 59, 27, 49, 17, 57, 25,
             15, 47,  7, 39, 13, 45,  5, 37,
             63, 31, 55, 23, 61, 29, 53, 21 :: int]. \<bar>k\<bar> < 2 ^ 23"
    by (simp add: bayer8_def, code_simp, simp)

text \<open>The rescaled tile, for a tile of ranks \<open>0 .. N-1\<close> and the divisor \<open>2^j = N\<close>.\<close>

lemma rescale_ranks:
  fixes ranks :: "int list"
  assumes tile: "tile = map rat_of_int ranks"
    and perm: "mset ranks = mset (map int [0..<N])"
    and small: "\<forall>k \<in> set ranks. \<bar>k\<bar> < 2 ^ 23"
    and j: "0 < j" "j \<le> 23" and N: "rat_of_nat N = 2 powi j"
  defines "M' \<equiv> map (\<lambda>x. fsub (fmul x (2 powi (- j))) (1 / 2)) tile"
  shows "length M' = N"
    and "mset M' = mset (map (\<lambda>k. rat_of_nat k / rat_of_nat N - 1 / 2) [0..<N])"
    and "\<forall>t \<in> set M'. - (1 / 2) \<le> t \<and> t < 1 / 2"
proof -
  have inv: "(2::rat) powi (- j) = 1 / rat_of_nat N"
    unfolding N by (rule power_int_minus_divide)
  have Npos: "0 < rat_of_nat N" unfolding N by simp
  have M': "M' = map (\<lambda>k. rat_of_int k / rat_of_nat N - 1 / 2) ranks"
    unfolding M'_def tile map_map
  proof (rule map_cong [OF refl])
    fix k assume "k \<in> set ranks"
    with small have "\<bar>k\<bar> < 2 ^ 23" by blast
    from bayer_entry [OF this j]
    show "((\<lambda>x. fsub (fmul x (2 powi (- j))) (1 / 2)) \<circ> rat_of_int) k = rat_of_int k / rat_of_nat N - 1 / 2"
      by (simp add: inv)
  qed
  have "size (mset ranks) = N" unfolding perm by simp
  then have len: "length ranks = N" by simp
  then show "length M' = N" by (simp add: M')
  have "mset M' = image_mset (\<lambda>k. rat_of_int k / rat_of_nat N - 1 / 2) (mset ranks)"
    by (simp add: M')
  also have "\<dots> = mset (map ((\<lambda>k. rat_of_int k / rat_of_nat N - 1 / 2) \<circ> int) [0..<N])"
    unfolding perm by (simp only: mset_map [symmetric] map_map)
  also have "(\<lambda>k. rat_of_int k / rat_of_nat N - 1 / 2) \<circ> int = (\<lambda>k. rat_of_nat k / rat_of_nat N - 1 / 2)"
    by (simp add: fun_eq_iff)
  finally show perm': "mset M' = mset (map (\<lambda>k. rat_of_nat k / rat_of_nat N - 1 / 2) [0..<N])" .
  show "\<forall>t \<in> set M'. - (1 / 2) \<le> t \<and> t < 1 / 2"
  proof
    fix t assume "t \<in> set M'"
    then have "t \<in># mset M'" by simp
    then have "t \<in> set (map (\<lambda>k. rat_of_nat k / rat_of_nat N - 1 / 2) [0..<N])"
      unfolding perm' by simp
    then obtain k where k: "k < N" and t: "t = rat_of_nat k / rat_of_nat N - 1 / 2" by auto
    define r where "r = rat_of_nat k / rat_of_nat N"
    have "0 \<le> r" by (simp add: r_def)
    moreover have "r < 1"
      using k Npos by (simp add: r_def divide_less_eq)
    ultimately have "- (1 / 2) \<le> r - 1 / 2" "r - 1 / 2 < 1 / 2" by linarith+
    then show "- (1 / 2) \<le> t \<and> t < 1 / 2" unfolding t r_def by blast
  qed
qed

section \<open>DitherPipeline: the loops over the image\<close>

lemma drop_quad: "drop (4 * Suc i) (a # b # c # d # xs) = drop (4 * i) xs"
  by (simp add: numeral_eq_Suc)

lemma ditherRGBA4444_cols_pixels:
  assumes px: "\<And>x d0 d1 d2 d3. \<exists>es. ditherRGBA4444_px x y d0 d1 d2 d3 = Some es \<and> length es = 4 \<and>
                  R x [d0, d1, d2, d3] es"
  shows "4 * k \<le> length data \<Longrightarrow>
    \<exists>wrote. ditherRGBA4444_cols y x k data = Some (wrote, drop (4 * k) data) \<and>
       length wrote = 4 * k \<and>
       (\<forall>i<k. R (x + of_nat i) (take 4 (drop (4 * i) data)) (take 4 (drop (4 * i) wrote)))"
proof (induction k arbitrary: x data)
  case 0
  show ?case by simp
next
  case (Suc k)
  then have "4 \<le> length data" by simp
  then obtain d0 d1 d2 d3 rest where data: "data = d0 # d1 # d2 # d3 # rest"
    by (rule list4_exhaust)
  with Suc.prems have "4 * k \<le> length rest" by simp
  from Suc.IH [OF this, of "x + 1"] obtain wrote where
    run: "ditherRGBA4444_cols y (x + 1) k rest = Some (wrote, drop (4 * k) rest)"
    and len: "length wrote = 4 * k"
    and rel: "\<And>i. i < k \<Longrightarrow>
       R (x + 1 + of_nat i) (take 4 (drop (4 * i) rest)) (take 4 (drop (4 * i) wrote))"
    by blast
  from px [of x d0 d1 d2 d3] obtain es where
    es: "ditherRGBA4444_px x y d0 d1 d2 d3 = Some es" "length es = 4" "R x [d0, d1, d2, d3] es"
    by blast
  then obtain e0 e1 e2 e3 where quad: "es = [e0, e1, e2, e3]"
    by (auto simp add: length_Suc_conv numeral_eq_Suc)
  have res: "ditherRGBA4444_cols y x (Suc k) data = Some (es @ wrote, drop (4 * Suc k) data)"
    unfolding data drop_quad using es(1) run by simp
  have lres: "length (es @ wrote) = 4 * Suc k" using es(2) len by simp
  have "R (x + of_nat i) (take 4 (drop (4 * i) data)) (take 4 (drop (4 * i) (es @ wrote)))"
    if "i < Suc k" for i
  proof (cases i)
    case 0
    then show ?thesis using es(3) by (simp add: data quad)
  next
    case (Suc j)
    with that have "j < k" by simp
    from rel [OF this] show ?thesis
      unfolding Suc data quad by (simp only: append_Cons append_Nil drop_quad of_nat_Suc)
         (simp add: add.commute add.left_commute)
  qed
  with res lres show ?case by blast
qed

lemma ditherRGBA4444_rows_pixels:
  assumes px: "\<And>x y d0 d1 d2 d3. \<exists>es. ditherRGBA4444_px x y d0 d1 d2 d3 = Some es \<and> length es = 4 \<and>
                  R x y [d0, d1, d2, d3] es"
  shows "4 * unat width * k \<le> length data \<Longrightarrow>
    \<exists>out. ditherRGBA4444_rows width y k data = Some out \<and> length out = length data \<and>
       (\<forall>r<k. \<forall>c<unat width.
          R (of_nat c) (y + of_nat r) (take 4 (drop (4 * (r * unat width + c)) data))
                                 (take 4 (drop (4 * (r * unat width + c)) out)))"
proof (induction k arbitrary: y data)
  case 0
  show ?case by simp
next
  case (Suc k)
  define w where "w = unat width"
  have le: "4 * w \<le> length data" "4 * w * k \<le> length (drop (4 * w) data)"
    using Suc.prems by (simp_all add: w_def algebra_simps)
  have pxy: "\<And>x d0 d1 d2 d3. \<exists>es. ditherRGBA4444_px x y d0 d1 d2 d3 = Some es \<and>
      length es = 4 \<and> R x y [d0, d1, d2, d3] es"
    using px by blast
  from ditherRGBA4444_cols_pixels
    [where R = "\<lambda>x. R x y" and y = y and x = 0 and k = w and data = data, OF pxy le(1)]
  obtain wrote where
    cols: "ditherRGBA4444_cols y 0 w data = Some (wrote, drop (4 * w) data)"
    and lw: "length wrote = 4 * w"
    and first: "\<And>c. c < w \<Longrightarrow>
       R (of_nat c) y (take 4 (drop (4 * c) data)) (take 4 (drop (4 * c) wrote))"
    by auto
  from Suc.IH [OF le(2) [unfolded w_def], of "y + 1"] obtain below where
    rows: "ditherRGBA4444_rows width (y + 1) k (drop (4 * w) data) = Some below"
    and lb: "length below = length (drop (4 * w) data)"
    and others: "\<And>r c. r < k \<Longrightarrow> c < w \<Longrightarrow>
       R (of_nat c) (y + 1 + of_nat r) (take 4 (drop (4 * (r * w + c)) (drop (4 * w) data)))
                                 (take 4 (drop (4 * (r * w + c)) below))"
    unfolding w_def by blast
  have "R (of_nat c) (y + of_nat r) (take 4 (drop (4 * (r * w + c)) data))
           (take 4 (drop (4 * (r * w + c)) (wrote @ below)))"
    if "r < Suc k" and c: "c < w" for r c
  proof (cases r)
    case 0
    have "4 * c + 4 \<le> length wrote" using c lw by simp
    then have tk: "take 4 (drop (4 * c) (wrote @ below)) = take 4 (drop (4 * c) wrote)"
      by simp
    have i0: "4 * (0 * w + c) = 4 * c" and y0: "y + of_nat 0 = y" by simp_all
    show ?thesis unfolding 0 i0 y0 tk using c by (rule first)
  next
    case (Suc r')
    with that have r': "r' < k" by simp
    have idx: "4 * (Suc r' * w + c) = 4 * w + 4 * (r' * w + c)" by (simp add: algebra_simps)
    have "drop (4 * w + 4 * (r' * w + c)) (wrote @ below) = drop (4 * (r' * w + c)) below"
      using lw by simp
    moreover have "drop (4 * w + 4 * (r' * w + c)) data = drop (4 * (r' * w + c)) (drop (4 * w) data)"
      by (simp add: add.commute)
    moreover have "y + of_nat (Suc r') = y + 1 + of_nat r'" by simp
    ultimately show ?thesis
      using others [OF r' c] unfolding Suc idx by (simp only:)
  qed
  moreover have "length (wrote @ below) = length data"
    using lw lb le(1) by simp
  ultimately show ?case
    using cols rows unfolding w_def by simp
qed

lemma ditherRGBx565_cols_pixels:
  assumes px: "\<And>x d0 d1 d2 d3. \<exists>es. ditherRGBx565_px x y d0 d1 d2 d3 = Some es \<and> length es = 4 \<and>
                  R x [d0, d1, d2, d3] es"
  shows "4 * k \<le> length data \<Longrightarrow>
    \<exists>wrote. ditherRGBx565_cols y x k data = Some (wrote, drop (4 * k) data) \<and>
       length wrote = 4 * k \<and>
       (\<forall>i<k. R (x + of_nat i) (take 4 (drop (4 * i) data)) (take 4 (drop (4 * i) wrote)))"
proof (induction k arbitrary: x data)
  case 0
  show ?case by simp
next
  case (Suc k)
  then have "4 \<le> length data" by simp
  then obtain d0 d1 d2 d3 rest where data: "data = d0 # d1 # d2 # d3 # rest"
    by (rule list4_exhaust)
  with Suc.prems have "4 * k \<le> length rest" by simp
  from Suc.IH [OF this, of "x + 1"] obtain wrote where
    run: "ditherRGBx565_cols y (x + 1) k rest = Some (wrote, drop (4 * k) rest)"
    and len: "length wrote = 4 * k"
    and rel: "\<And>i. i < k \<Longrightarrow>
       R (x + 1 + of_nat i) (take 4 (drop (4 * i) rest)) (take 4 (drop (4 * i) wrote))"
    by blast
  from px [of x d0 d1 d2 d3] obtain es where
    es: "ditherRGBx565_px x y d0 d1 d2 d3 = Some es" "length es = 4" "R x [d0, d1, d2, d3] es"
    by blast
  then obtain e0 e1 e2 e3 where quad: "es = [e0, e1, e2, e3]"
    by (auto simp add: length_Suc_conv numeral_eq_Suc)
  have res: "ditherRGBx565_cols y x (Suc k) data = Some (es @ wrote, drop (4 * Suc k) data)"
    unfolding data drop_quad using es(1) run by simp
  have lres: "length (es @ wrote) = 4 * Suc k" using es(2) len by simp
  have "R (x + of_nat i) (take 4 (drop (4 * i) data)) (take 4 (drop (4 * i) (es @ wrote)))"
    if "i < Suc k" for i
  proof (cases i)
    case 0
    then show ?thesis using es(3) by (simp add: data quad)
  next
    case (Suc j)
    with that have "j < k" by simp
    from rel [OF this] show ?thesis
      unfolding Suc data quad by (simp only: append_Cons append_Nil drop_quad of_nat_Suc)
         (simp add: add.commute add.left_commute)
  qed
  with res lres show ?case by blast
qed

lemma ditherRGBx565_rows_pixels:
  assumes px: "\<And>x y d0 d1 d2 d3. \<exists>es. ditherRGBx565_px x y d0 d1 d2 d3 = Some es \<and> length es = 4 \<and>
                  R x y [d0, d1, d2, d3] es"
  shows "4 * unat width * k \<le> length data \<Longrightarrow>
    \<exists>out. ditherRGBx565_rows width y k data = Some out \<and> length out = length data \<and>
       (\<forall>r<k. \<forall>c<unat width.
          R (of_nat c) (y + of_nat r) (take 4 (drop (4 * (r * unat width + c)) data))
                                 (take 4 (drop (4 * (r * unat width + c)) out)))"
proof (induction k arbitrary: y data)
  case 0
  show ?case by simp
next
  case (Suc k)
  define w where "w = unat width"
  have le: "4 * w \<le> length data" "4 * w * k \<le> length (drop (4 * w) data)"
    using Suc.prems by (simp_all add: w_def algebra_simps)
  have pxy: "\<And>x d0 d1 d2 d3. \<exists>es. ditherRGBx565_px x y d0 d1 d2 d3 = Some es \<and>
      length es = 4 \<and> R x y [d0, d1, d2, d3] es"
    using px by blast
  from ditherRGBx565_cols_pixels
    [where R = "\<lambda>x. R x y" and y = y and x = 0 and k = w and data = data, OF pxy le(1)]
  obtain wrote where
    cols: "ditherRGBx565_cols y 0 w data = Some (wrote, drop (4 * w) data)"
    and lw: "length wrote = 4 * w"
    and first: "\<And>c. c < w \<Longrightarrow>
       R (of_nat c) y (take 4 (drop (4 * c) data)) (take 4 (drop (4 * c) wrote))"
    by auto
  from Suc.IH [OF le(2) [unfolded w_def], of "y + 1"] obtain below where
    rows: "ditherRGBx565_rows width (y + 1) k (drop (4 * w) data) = Some below"
    and lb: "length below = length (drop (4 * w) data)"
    and others: "\<And>r c. r < k \<Longrightarrow> c < w \<Longrightarrow>
       R (of_nat c) (y + 1 + of_nat r) (take 4 (drop (4 * (r * w + c)) (drop (4 * w) data)))
                                 (take 4 (drop (4 * (r * w + c)) below))"
    unfolding w_def by blast
  have "R (of_nat c) (y + of_nat r) (take 4 (drop (4 * (r * w + c)) data))
           (take 4 (drop (4 * (r * w + c)) (wrote @ below)))"
    if "r < Suc k" and c: "c < w" for r c
  proof (cases r)
    case 0
    have "4 * c + 4 \<le> length wrote" using c lw by simp
    then have tk: "take 4 (drop (4 * c) (wrote @ below)) = take 4 (drop (4 * c) wrote)"
      by simp
    have i0: "4 * (0 * w + c) = 4 * c" and y0: "y + of_nat 0 = y" by simp_all
    show ?thesis unfolding 0 i0 y0 tk using c by (rule first)
  next
    case (Suc r')
    with that have r': "r' < k" by simp
    have idx: "4 * (Suc r' * w + c) = 4 * w + 4 * (r' * w + c)" by (simp add: algebra_simps)
    have "drop (4 * w + 4 * (r' * w + c)) (wrote @ below) = drop (4 * (r' * w + c)) below"
      using lw by simp
    moreover have "drop (4 * w + 4 * (r' * w + c)) data = drop (4 * (r' * w + c)) (drop (4 * w) data)"
      by (simp add: add.commute)
    moreover have "y + of_nat (Suc r') = y + 1 + of_nat r'" by simp
    ultimately show ?thesis
      using others [OF r' c] unfolding Suc idx by (simp only:)
  qed
  moreover have "length (wrote @ below) = length data"
    using lw lb le(1) by simp
  ultimately show ?case
    using cols rows unfolding w_def by simp
qed


subsection \<open>The two pixel bodies\<close>

lemma inverted_noise_range:
  assumes "0 \<le> r" "r < 1"
  shows "0 \<le> fsub 1 r" and "fsub 1 r \<le> 1"
proof -
  have a: "0 \<le> 1 - r" "1 - r \<le> 1" using assms by simp_all
  show "0 \<le> fsub 1 r" unfolding fsub_def using a(1) by (rule fl_nonneg)
  show "fsub 1 r \<le> 1" unfolding fsub_def using a by (rule fl_le_one)
qed

text \<open>The same in closed form: every byte as the saturated sum with the truncated bias.\<close>

lemma dither_channel_closed:
  assumes "0 \<le> t" and "t \<le> 1"
  shows "\<exists>e. dither_channel v t 16 8 = Some e \<and>
              uint e = max 0 (min 255 (uint v + trunc0 (fsub (fmul t 16) 8)))"
    and "\<exists>e. dither_channel v t 8 4 = Some e \<and>
              uint e = max 0 (min 255 (uint v + trunc0 (fsub (fmul t 8) 4)))"
    and "\<exists>e. dither_channel v t 4 2 = Some e \<and>
              uint e = max 0 (min 255 (uint v + trunc0 (fsub (fmul t 4) 2)))"
proof -
  have s: "uint (16 :: u8) \<le> 16" "even (uint (16 :: u8))"
    "uint (8 :: u8) \<le> 16" "even (uint (8 :: u8))"
    "uint (4 :: u8) \<le> 16" "even (uint (4 :: u8))" by simp_all
  have n: "rat_of_int (uint (16 :: u8)) = 16" "rat_of_int (uint (8 :: u8)) = 8"
    "rat_of_int (uint (4 :: u8)) = 4"
    "(16 :: u8) div 2 = 8" "(8 :: u8) div 2 = 4" "(4 :: u8) div 2 = 2"
    "(16 / 2 :: rat) = 8" "(8 / 2 :: rat) = 4" "(4 / 2 :: rat) = 2" by simp_all
  show "\<exists>e. dither_channel v t 16 8 = Some e \<and>
              uint e = max 0 (min 255 (uint v + trunc0 (fsub (fmul t 16) 8)))"
    using dither_channel_value(1) [OF assms s(1,2), of v] unfolding n .
  show "\<exists>e. dither_channel v t 8 4 = Some e \<and>
              uint e = max 0 (min 255 (uint v + trunc0 (fsub (fmul t 8) 4)))"
    using dither_channel_value(1) [OF assms s(3,4), of v] unfolding n .
  show "\<exists>e. dither_channel v t 4 2 = Some e \<and>
              uint e = max 0 (min 255 (uint v + trunc0 (fsub (fmul t 4) 2)))"
    using dither_channel_value(1) [OF assms s(5,6), of v] unfolding n .
qed

lemma ditherRGBA4444_px_closed:
  "\<exists>es. ditherRGBA4444_px x y d0 d1 d2 d3 = Some es \<and> length es = 4 \<and>
     (\<exists>rnd. InterleavedGradientNoise (float_of_uint32 x) (float_of_uint32 y) = Some rnd \<and>
        fl rnd = rnd \<and> 0 \<le> rnd \<and> rnd < 1 \<and>
        map uint es =
          [max 0 (min 255 (uint ([d0, d1, d2, d3] ! 0) + trunc0 (fsub (fmul rnd 16) 8))),
           max 0 (min 255 (uint ([d0, d1, d2, d3] ! 1) + trunc0 (fsub (fmul (fsub 1 rnd) 16) 8))),
           max 0 (min 255 (uint ([d0, d1, d2, d3] ! 2) + trunc0 (fsub (fmul rnd 16) 8))),
           max 0 (min 255 (uint ([d0, d1, d2, d3] ! 3) + trunc0 (fsub (fmul rnd 16) 8)))])"
proof -
  obtain rnd where rnd: "InterleavedGradientNoise (float_of_uint32 x) (float_of_uint32 y) = Some rnd"
    and f: "fl rnd = rnd" and r: "0 \<le> rnd" "rnd < 1"
    using noise_at_pixel [of x y] by blast
  have r1: "rnd \<le> 1" using r by simp
  note g = inverted_noise_range [OF r]
  obtain e0 where e0: "dither_channel d0 rnd 16 8 = Some e0"
    "uint e0 = max 0 (min 255 (uint d0 + trunc0 (fsub (fmul rnd 16) 8)))"
    using dither_channel_closed(1) [OF r(1) r1] by blast
  obtain e1 where e1: "dither_channel d1 (fsub 1 rnd) 16 8 = Some e1"
    "uint e1 = max 0 (min 255 (uint d1 + trunc0 (fsub (fmul (fsub 1 rnd) 16) 8)))"
    using dither_channel_closed(1) [OF g] by blast
  obtain e2 where e2: "dither_channel d2 rnd 16 8 = Some e2"
    "uint e2 = max 0 (min 255 (uint d2 + trunc0 (fsub (fmul rnd 16) 8)))"
    using dither_channel_closed(1) [OF r(1) r1] by blast
  obtain e3 where e3: "dither_channel d3 rnd 16 8 = Some e3"
    "uint e3 = max 0 (min 255 (uint d3 + trunc0 (fsub (fmul rnd 16) 8)))"
    using dither_channel_closed(1) [OF r(1) r1] by blast
  have px: "ditherRGBA4444_px x y d0 d1 d2 d3 = Some [e0, e1, e2, e3]"
    unfolding ditherRGBA4444_px_def Let_def
    by (simp add: rnd e0(1) e1(1) e2(1) e3(1))
  have len: "length [e0, e1, e2, e3] = 4" by simp
  have nths: "[d0, d1, d2, d3] ! 0 = d0" "[d0, d1, d2, d3] ! 1 = d1"
    "[d0, d1, d2, d3] ! 2 = d2" "[d0, d1, d2, d3] ! 3 = d3" by simp_all
  have vals: "map uint [e0, e1, e2, e3] =
          [max 0 (min 255 (uint d0 + trunc0 (fsub (fmul rnd 16) 8))),
           max 0 (min 255 (uint d1 + trunc0 (fsub (fmul (fsub 1 rnd) 16) 8))),
           max 0 (min 255 (uint d2 + trunc0 (fsub (fmul rnd 16) 8))),
           max 0 (min 255 (uint d3 + trunc0 (fsub (fmul rnd 16) 8)))]"
    by (simp only: list.map e0(2) e1(2) e2(2) e3(2))
  show ?thesis
    unfolding nths
    by (rule exI [of _ "[e0, e1, e2, e3]"], intro conjI px len, rule exI [of _ rnd])
       (intro conjI rnd f r vals)
qed

lemma ditherRGBx565_px_closed:
  "\<exists>es. ditherRGBx565_px x y d0 d1 d2 d3 = Some es \<and> length es = 4 \<and>
     (\<exists>rnd. InterleavedGradientNoise (float_of_uint32 x) (float_of_uint32 y) = Some rnd \<and>
        fl rnd = rnd \<and> 0 \<le> rnd \<and> rnd < 1 \<and>
        map uint es =
          [max 0 (min 255 (uint ([d0, d1, d2, d3] ! 0) + trunc0 (fsub (fmul rnd 8) 4))),
           max 0 (min 255 (uint ([d0, d1, d2, d3] ! 1) + trunc0 (fsub (fmul (fsub 1 rnd) 4) 2))),
           max 0 (min 255 (uint ([d0, d1, d2, d3] ! 2) + trunc0 (fsub (fmul rnd 8) 4))),
           uint ([d0, d1, d2, d3] ! 3)])"
proof -
  obtain rnd where rnd: "InterleavedGradientNoise (float_of_uint32 x) (float_of_uint32 y) = Some rnd"
    and f: "fl rnd = rnd" and r: "0 \<le> rnd" "rnd < 1"
    using noise_at_pixel [of x y] by blast
  have r1: "rnd \<le> 1" using r by simp
  note g = inverted_noise_range [OF r]
  obtain e0 where e0: "dither_channel d0 rnd 8 4 = Some e0"
    "uint e0 = max 0 (min 255 (uint d0 + trunc0 (fsub (fmul rnd 8) 4)))"
    using dither_channel_closed(2) [OF r(1) r1] by blast
  obtain e1 where e1: "dither_channel d1 (fsub 1 rnd) 4 2 = Some e1"
    "uint e1 = max 0 (min 255 (uint d1 + trunc0 (fsub (fmul (fsub 1 rnd) 4) 2)))"
    using dither_channel_closed(3) [OF g] by blast
  obtain e2 where e2: "dither_channel d2 rnd 8 4 = Some e2"
    "uint e2 = max 0 (min 255 (uint d2 + trunc0 (fsub (fmul rnd 8) 4)))"
    using dither_channel_closed(2) [OF r(1) r1] by blast
  have px: "ditherRGBx565_px x y d0 d1 d2 d3 = Some [e0, e1, e2, d3]"
    unfolding ditherRGBx565_px_def Let_def
    by (simp add: rnd e0(1) e1(1) e2(1))
  have len: "length [e0, e1, e2, d3] = 4" by simp
  have nths: "[d0, d1, d2, d3] ! 0 = d0" "[d0, d1, d2, d3] ! 1 = d1"
    "[d0, d1, d2, d3] ! 2 = d2" "[d0, d1, d2, d3] ! 3 = d3" by simp_all
  have vals: "map uint [e0, e1, e2, d3] =
          [max 0 (min 255 (uint d0 + trunc0 (fsub (fmul rnd 8) 4))),
           max 0 (min 255 (uint d1 + trunc0 (fsub (fmul (fsub 1 rnd) 4) 2))),
           max 0 (min 255 (uint d2 + trunc0 (fsub (fmul rnd 8) 4))),
           uint d3]"
    by (simp only: list.map e0(2) e1(2) e2(2))
  show ?thesis
    unfolding nths
    by (rule exI [of _ "[e0, e1, e2, d3]"], intro conjI px len, rule exI [of _ rnd])
       (intro conjI rnd f r vals)
qed

section \<open>PixelCodec: the claims\<close>

text \<open>
  Claim C2. For every 8-bit RGBA buffer of \<open>width * height\<close> pixels, packing it with
  \<^verbatim>\<open>RGBA8888ToRGBA4444\<close> and unpacking the result with \<^verbatim>\<open>RGBA4444ToRGBA8888\<close>
  succeeds and gives, for every byte (every channel of every pixel), a value that
  differs from the original by at most \<open>\<lceil>255/15\<rceil> = 17\<close>. The values computed
  in \<^verbatim>\<open>uint32_t\<close> before the store into \<^verbatim>\<open>uint8_t\<close> lie in \<open>[0,255]\<close>, so that the
  store never wraps.
\<close>

theorem rgba4444_pack_unpack_near:
  assumes "4 * unat (width * height) \<le> length data"
  shows "\<exists>packed out.
     RGBA8888ToRGBA4444 data width height = Some packed \<and>
     RGBA4444ToRGBA8888 packed width height = Some out \<and>
     length out = 4 * unat (width * height) \<and>
     (\<forall>i < 4 * unat (width * height).
        \<bar>uint (out ! i) - uint (data ! i)\<bar> \<le> \<lceil>255 / 15 :: rat\<rceil>) \<and>
     (\<forall>c \<in> set packed. \<forall>e \<in> set (RGBA4444ToRGBA8888_exprs c). 0 \<le> uint e \<and> uint e \<le> 255)"
proof -
  from assms obtain packed where
    packed: "RGBA8888ToRGBA4444_loop (unat (width * height)) data = Some packed"
    using RGBA8888ToRGBA4444_loop_total by blast
  from rgba4444_roundtrip_loop [OF this] obtain out where
    out: "RGBA4444ToRGBA8888_loop (unat (width * height)) packed = Some out"
    and len: "length out = 4 * unat (width * height)"
    and near: "\<forall>i<4 * unat (width * height). \<bar>uint (out ! i) - uint (data ! i)\<bar> \<le> 15"
    by blast
  have step: "\<lceil>255 / 15 :: rat\<rceil> = 17" by simp
  have "\<forall>i<4 * unat (width * height). \<bar>uint (out ! i) - uint (data ! i)\<bar> \<le> \<lceil>255 / 15 :: rat\<rceil>"
    unfolding step using near by force
  moreover have "0 \<le> uint e \<and> uint e \<le> 255" if "e \<in> set (RGBA4444ToRGBA8888_exprs c)" for c e
    using RGBA4444_exprs_le [OF that] unfolding uint_nat by linarith
  then have "\<forall>c \<in> set packed. \<forall>e \<in> set (RGBA4444ToRGBA8888_exprs c). 0 \<le> uint e \<and> uint e \<le> 255"
    by blast
  ultimately show ?thesis
    unfolding RGBA8888ToRGBA4444_def RGBA4444ToRGBA8888_def using packed out len by blast
qed

text \<open>The 2x2 image of the end-to-end scenario satisfies the hypothesis.\<close>

theorem rgba4444_pack_unpack_near_witness:
  "\<exists>packed out.
     RGBA8888ToRGBA4444 [0, 0, 0, 255, 255, 255, 255, 255, 128, 64, 32, 255, 10, 200, 50, 0] 2 2
       = Some packed \<and>
     RGBA4444ToRGBA8888 packed 2 2 = Some out \<and>
     length out = 16 \<and>
     (\<forall>i < 16. \<bar>uint (out ! i)
         - uint ([0, 0, 0, 255, 255, 255, 255, 255, 128, 64, 32, 255, 10, 200, 50, 0 :: u8] ! i)\<bar> \<le> 17)"
proof -
  have h: "4 * unat (2 * 2 :: u32) \<le>
      length [0, 0, 0, 255, 255, 255, 255, 255, 128, 64, 32, 255, 10, 200, 50, 0 :: u8]"
    by simp
  have n: "4 * unat (2 * 2 :: u32) = 16" and step: "\<lceil>255 / 15 :: rat\<rceil> = 17" by simp_all
  show ?thesis
    using rgba4444_pack_unpack_near [OF h] unfolding n step by blast
qed

text \<open>
  Claim C3. For every 8-bit buffer of \<open>width * height\<close> pixels, packing it with
  \<^verbatim>\<open>RGBA8888ToRGB565\<close> and unpacking the result with \<^verbatim>\<open>RGB565ToRGBA8888\<close> succeeds
  and gives, for every pixel, red and blue within \<open>\<lceil>255/31\<rceil>\<close> of the original,
  green within \<open>\<lceil>255/63\<rceil>\<close>, and alpha exactly 255.
\<close>

theorem rgb565_pack_unpack_near:
  assumes "4 * unat (width * height) \<le> length data"
  shows "\<exists>packed out.
     RGBA8888ToRGB565 data width height = Some packed \<and>
     RGB565ToRGBA8888 packed width height = Some out \<and>
     length out = 4 * unat (width * height) \<and>
     (\<forall>i < unat (width * height).
        \<bar>uint (out ! (4 * i)) - uint (data ! (4 * i))\<bar> \<le> \<lceil>255 / 31 :: rat\<rceil> \<and>
        \<bar>uint (out ! (4 * i + 1)) - uint (data ! (4 * i + 1))\<bar> \<le> \<lceil>255 / 63 :: rat\<rceil> \<and>
        \<bar>uint (out ! (4 * i + 2)) - uint (data ! (4 * i + 2))\<bar> \<le> \<lceil>255 / 31 :: rat\<rceil> \<and>
        out ! (4 * i + 3) = 255)"
proof -
  from assms obtain packed where
    packed: "RGBA8888ToRGB565_loop (unat (width * height)) data = Some packed"
    using RGBA8888ToRGB565_loop_total by blast
  have step: "\<lceil>255 / 31 :: rat\<rceil> = 9" "\<lceil>255 / 63 :: rat\<rceil> = 5"
    by (rule ceiling_unique; simp)+
  from rgb565_roundtrip_loop [OF packed] show ?thesis
    unfolding RGBA8888ToRGB565_def RGB565ToRGBA8888_def step using packed by blast
qed

text \<open>The 1x1 image \<open>(200,100,50)\<close> with alpha 255 satisfies the hypothesis.\<close>

theorem rgb565_pack_unpack_near_witness:
  "\<exists>packed out.
     RGBA8888ToRGB565 [200, 100, 50, 255] 1 1 = Some packed \<and>
     RGB565ToRGBA8888 packed 1 1 = Some out \<and>
     length out = 4 * 1 \<and>
     (\<forall>i < 1.
        \<bar>uint (out ! (4 * i)) - uint ([200, 100, 50, 255 :: u8] ! (4 * i))\<bar> \<le> 9 \<and>
        \<bar>uint (out ! (4 * i + 1)) - uint ([200, 100, 50, 255 :: u8] ! (4 * i + 1))\<bar> \<le> 5 \<and>
        \<bar>uint (out ! (4 * i + 2)) - uint ([200, 100, 50, 255 :: u8] ! (4 * i + 2))\<bar> \<le> 9 \<and>
        out ! (4 * i + 3) = 255)"
proof -
  have h: "4 * unat (1 * 1 :: u32) \<le> length [200, 100, 50, 255 :: u8]"
    by simp
  have n: "unat (1 * 1 :: u32) = 1" by simp
  have step: "\<lceil>255 / 31 :: rat\<rceil> = 9" "\<lceil>255 / 63 :: rat\<rceil> = 5"
    by (rule ceiling_unique; simp)+
  show ?thesis
    using rgb565_pack_unpack_near [OF h] unfolding n step by blast
qed

text \<open>
  Claim C10. For every buffer of 16-bit codes, unpacking \<open>width * height\<close> of them
  to 8 bits and packing the result again gives back exactly these codes, in both
  formats.
\<close>

theorem unpack_pack_identity:
  assumes "unat (width * height) \<le> length codes"
  shows "(\<exists>rgba. RGB565ToRGBA8888 codes width height = Some rgba \<and>
            RGBA8888ToRGB565 rgba width height = Some (take (unat (width * height)) codes)) \<and>
         (\<exists>rgba. RGBA4444ToRGBA8888 codes width height = Some rgba \<and>
            RGBA8888ToRGBA4444 rgba width height = Some (take (unat (width * height)) codes))"
  unfolding RGB565ToRGBA8888_def RGBA8888ToRGB565_def RGBA4444ToRGBA8888_def RGBA8888ToRGBA4444_def
  using rgb565_repack_loop [OF assms] rgba4444_repack_loop [OF assms] by simp

text \<open>Three codes that satisfy the hypothesis.\<close>

theorem unpack_pack_identity_witness:
  "(\<exists>rgba. RGB565ToRGBA8888 [0xC646, 0xFFFF, 0x0821] 3 1 = Some rgba \<and>
            RGBA8888ToRGB565 rgba 3 1 = Some [0xC646, 0xFFFF, 0x0821]) \<and>
   (\<exists>rgba. RGBA4444ToRGBA8888 [0xC646, 0xFFFF, 0x0821] 3 1 = Some rgba \<and>
            RGBA8888ToRGBA4444 rgba 3 1 = Some [0xC646, 0xFFFF, 0x0821])"
proof -
  have h: "unat (3 * 1 :: u32) \<le> length [0xC646, 0xFFFF, 0x0821 :: u16]" by simp
  show ?thesis using unpack_pack_identity [OF h] by simp
qed

text \<open>
  Claim C6. For every value of a packed field (a 5-bit, 6-bit or 4-bit field, as the
  masks \<^verbatim>\<open>0x1f\<close>, \<^verbatim>\<open>0x3f\<close> and \<^verbatim>\<open>0xf\<close> extract it), the integer formulas
  \<^verbatim>\<open>(f*255+15)/31\<close>, \<^verbatim>\<open>(f*255+31)/63\<close> and \<^verbatim>\<open>(f*255+7)/15\<close> give the
  rescaling \<open>f * 255 / (2^bits - 1)\<close> rounded to the nearest integer: they equal
  \<open>round\<close> of it and lie strictly less than one half from it (so no tie occurs).
\<close>

theorem unpack_formulas_round_to_nearest:
  fixes f :: u32
  shows "uint (expand5 (f AND 0x1f)) = round (rat_of_int (uint (f AND 0x1f)) * 255 / (2 ^ 5 - 1)) \<and>
         \<bar>rat_of_int (uint (expand5 (f AND 0x1f))) - rat_of_int (uint (f AND 0x1f)) * 255 / (2 ^ 5 - 1)\<bar> < 1 / 2 \<and>
         uint (expand6 (f AND 0x3f)) = round (rat_of_int (uint (f AND 0x3f)) * 255 / (2 ^ 6 - 1)) \<and>
         \<bar>rat_of_int (uint (expand6 (f AND 0x3f))) - rat_of_int (uint (f AND 0x3f)) * 255 / (2 ^ 6 - 1)\<bar> < 1 / 2 \<and>
         uint (expand4 (f AND 0xf)) = round (rat_of_int (uint (f AND 0xf)) * 255 / (2 ^ 4 - 1)) \<and>
         \<bar>rat_of_int (uint (expand4 (f AND 0xf))) - rat_of_int (uint (f AND 0xf)) * 255 / (2 ^ 4 - 1)\<bar> < 1 / 2"
proof -
  define f5 f6 f4 where "f5 = f AND 0x1f" and "f6 = f AND 0x3f" and "f4 = f AND 0xf"
  have b: "unat f5 < 32" "unat f6 < 64" "unat f4 < 16"
    unfolding f5_def f6_def f4_def mask5_num mask6_num mask4_num
    using unat_and_mask_less [of f 5] unat_and_mask_less [of f 6] unat_and_mask_less [of f 4]
    by simp_all
  have e: "unat (expand5 f5) = (unat f5 * 255 + 31 div 2) div 31"
    "unat (expand6 f6) = (unat f6 * 255 + 63 div 2) div 63"
    "unat (expand4 f4) = (unat f4 * 255 + 15 div 2) div 15"
    using b by (simp_all add: unat_expand5 unat_expand6 unat_expand4)
  have q: "rat_of_int (uint x) * 255 / d = rat_of_nat (unat x * 255) / d" for x :: u32 and d
    by (simp only: uint_nat of_int_of_nat_eq of_nat_mult of_nat_numeral)
  have d: "(2 ^ 5 - 1 :: rat) = rat_of_nat 31" "(2 ^ 6 - 1 :: rat) = rat_of_nat 63"
    "(2 ^ 4 - 1 :: rat) = rat_of_nat 15" by simp_all
  have o: "odd (31::nat)" "odd (63::nat)" "odd (15::nat)" by simp_all
  show ?thesis
    unfolding f5_def [symmetric] f6_def [symmetric] f4_def [symmetric] q d
    unfolding uint_nat e
    using round_half_div [OF o(1)] round_half_div [OF o(2)] round_half_div [OF o(3)]
      near_half_div [OF o(1)] near_half_div [OF o(2)] near_half_div [OF o(3)]
    by (simp only: simp_thms)
qed

section \<open>NoiseField, Quantizer and the program: the claims\<close>

text \<open>
  Claim C4. For all pixel coordinates \<open>x\<close> and \<open>y\<close> below \<open>2^20\<close>, converted to
  \<^verbatim>\<open>float\<close> as at the two call sites, \<^verbatim>\<open>InterleavedGradientNoise\<close> returns (neither
  conversion to \<^verbatim>\<open>int32_t\<close> is out of range) and its value lies in \<open>[0, 1)\<close>.
\<close>

theorem noise_in_unit_interval:
  fixes x y :: u32
  assumes "uint x < 2 ^ 20" and "uint y < 2 ^ 20"
  shows "\<exists>r. InterleavedGradientNoise (float_of_uint32 x) (float_of_uint32 y) = Some r \<and>
             0 \<le> r \<and> r < 1"
  using noise_at_pixel [of x y] by blast

text \<open>The pixel \<open>(3, 5)\<close> satisfies the hypotheses.\<close>

theorem noise_in_unit_interval_witness:
  "uint (3 :: u32) < 2 ^ 20 \<and> uint (5 :: u32) < 2 ^ 20 \<and>
   (\<exists>r. InterleavedGradientNoise (float_of_uint32 3) (float_of_uint32 5) = Some r \<and>
             0 \<le> r \<and> r < 1)"
proof -
  have h: "uint (3 :: u32) < 2 ^ 20" "uint (5 :: u32) < 2 ^ 20" by simp_all
  show ?thesis using h noise_in_unit_interval [OF h] by blast
qed

text \<open>
  Claim C1, as amended. For every 8-bit channel value \<open>v\<close>, every \<^verbatim>\<open>float\<close> bias
  source \<open>t\<close> in \<open>[0, 1]\<close> and every step 16, 8 or 4, the statement
  \<^verbatim>\<open>addNoise(v, t * step - step/2)\<close> returns \<open>clamp(v + T, 0, 255)\<close>, where \<open>T\<close> is the
  single-precision value of \<open>t * step - step/2\<close> with its fraction discarded (truncated
  toward zero by the conversion to \<^verbatim>\<open>int8_t\<close>), not rounded to the nearest integer.
  At every pixel \<open>(x, y)\<close> the bias source is the noise \<open>rnd\<close> of the pixel, in
  \<open>[0, 1)\<close>, on red, blue and alpha, and \<^verbatim>\<open>1.0f - rnd\<close>, in \<open>[0, 1]\<close>, on green; the
  bodies of the two dither loops write these values, with step 16 for RGBA4444 and
  8 (red, blue) or 4 (green) for RGB565, whose alpha is not touched.
\<close>

theorem noise_dither_truncates:
  fixes v step d0 d1 d2 d3 :: u8 and x y :: u32
  assumes "fl t = t" and "0 \<le> t" and "t \<le> 1"
    and "step = 16 \<or> step = 8 \<or> step = 4"
  shows "(\<exists>e. dither_channel v t step (step div 2) = Some e \<and>
             uint e = max 0 (min 255 (uint v +
               trunc0 (fsub (fmul t (rat_of_int (uint step))) (rat_of_int (uint step) / 2))))) \<and>
         (\<exists>rnd. InterleavedGradientNoise (float_of_uint32 x) (float_of_uint32 y) = Some rnd \<and>
             fl rnd = rnd \<and> 0 \<le> rnd \<and> rnd < 1 \<and>
             fl (fsub 1 rnd) = fsub 1 rnd \<and> 0 \<le> fsub 1 rnd \<and> fsub 1 rnd \<le> 1 \<and>
             map_option (map uint) (ditherRGBA4444_px x y d0 d1 d2 d3) =
               Some [max 0 (min 255 (uint d0 + trunc0 (fsub (fmul rnd 16) (16 / 2)))),
                     max 0 (min 255 (uint d1 + trunc0 (fsub (fmul (fsub 1 rnd) 16) (16 / 2)))),
                     max 0 (min 255 (uint d2 + trunc0 (fsub (fmul rnd 16) (16 / 2)))),
                     max 0 (min 255 (uint d3 + trunc0 (fsub (fmul rnd 16) (16 / 2))))] \<and>
             map_option (map uint) (ditherRGBx565_px x y d0 d1 d2 d3) =
               Some [max 0 (min 255 (uint d0 + trunc0 (fsub (fmul rnd 8) (8 / 2)))),
                     max 0 (min 255 (uint d1 + trunc0 (fsub (fmul (fsub 1 rnd) 4) (4 / 2)))),
                     max 0 (min 255 (uint d2 + trunc0 (fsub (fmul rnd 8) (8 / 2)))),
                     uint d3])"
proof -
  have "uint step \<le> 16" "even (uint step)" using assms(4) by auto
  with assms(2,3) have chan: "\<exists>e. dither_channel v t step (step div 2) = Some e \<and>
             uint e = max 0 (min 255 (uint v +
               trunc0 (fsub (fmul t (rat_of_int (uint step))) (rat_of_int (uint step) / 2))))"
    by (intro dither_channel_value)
  have nths: "[d0, d1, d2, d3] ! 0 = d0" "[d0, d1, d2, d3] ! 1 = d1"
    "[d0, d1, d2, d3] ! 2 = d2" "[d0, d1, d2, d3] ! 3 = d3" by simp_all
  from ditherRGBA4444_px_closed [of x y d0 d1 d2 d3, unfolded nths] obtain es rnd where
    rnd: "InterleavedGradientNoise (float_of_uint32 x) (float_of_uint32 y) = Some rnd"
    and r: "fl rnd = rnd" "0 \<le> rnd" "rnd < 1"
    and p4: "ditherRGBA4444_px x y d0 d1 d2 d3 = Some es"
    and u4: "map uint es =
          [max 0 (min 255 (uint d0 + trunc0 (fsub (fmul rnd 16) 8))),
           max 0 (min 255 (uint d1 + trunc0 (fsub (fmul (fsub 1 rnd) 16) 8))),
           max 0 (min 255 (uint d2 + trunc0 (fsub (fmul rnd 16) 8))),
           max 0 (min 255 (uint d3 + trunc0 (fsub (fmul rnd 16) 8)))]"
    by (elim exE conjE)
  from ditherRGBx565_px_closed [of x y d0 d1 d2 d3, unfolded nths] obtain es' rnd' where
    rnd': "InterleavedGradientNoise (float_of_uint32 x) (float_of_uint32 y) = Some rnd'"
    and p5: "ditherRGBx565_px x y d0 d1 d2 d3 = Some es'"
    and u5: "map uint es' =
          [max 0 (min 255 (uint d0 + trunc0 (fsub (fmul rnd' 8) 4))),
           max 0 (min 255 (uint d1 + trunc0 (fsub (fmul (fsub 1 rnd') 4) 2))),
           max 0 (min 255 (uint d2 + trunc0 (fsub (fmul rnd' 8) 4))),
           uint d3]"
    by (elim exE conjE)
  from rnd rnd' have same: "rnd' = rnd" by simp
  note g = inverted_noise_range [OF r(2,3)]
  have gf: "fl (fsub 1 rnd) = fsub 1 rnd" unfolding fsub_def by (rule fl_idem)
  have halves: "(16 / 2 :: rat) = 8" "(8 / 2 :: rat) = 4" "(4 / 2 :: rat) = 2" by simp_all
  have a4: "map_option (map uint) (ditherRGBA4444_px x y d0 d1 d2 d3) =
               Some [max 0 (min 255 (uint d0 + trunc0 (fsub (fmul rnd 16) 8))),
                     max 0 (min 255 (uint d1 + trunc0 (fsub (fmul (fsub 1 rnd) 16) 8))),
                     max 0 (min 255 (uint d2 + trunc0 (fsub (fmul rnd 16) 8))),
                     max 0 (min 255 (uint d3 + trunc0 (fsub (fmul rnd 16) 8)))]"
    unfolding p4 option.map u4 ..
  have a5: "map_option (map uint) (ditherRGBx565_px x y d0 d1 d2 d3) =
               Some [max 0 (min 255 (uint d0 + trunc0 (fsub (fmul rnd 8) 4))),
                     max 0 (min 255 (uint d1 + trunc0 (fsub (fmul (fsub 1 rnd) 4) 2))),
                     max 0 (min 255 (uint d2 + trunc0 (fsub (fmul rnd 8) 4))),
                     uint d3]"
    unfolding p5 option.map u5 [unfolded same] ..
  show ?thesis
    unfolding halves
    by (rule conjI [OF chan], rule exI [of _ rnd]) (intro conjI rnd r g gf a4 a5)
qed

text \<open>
  The green channel at the pixel \<open>(0, 0)\<close>, where \<open>rnd = 0\<close> and the bias source is
  \<open>1\<close>, satisfies the hypotheses.
\<close>

theorem noise_dither_truncates_witness:
  "(\<exists>e. dither_channel 100 1 4 (4 div 2) = Some e \<and>
             uint e = max 0 (min 255 (uint (100 :: u8) +
               trunc0 (fsub (fmul 1 (rat_of_int (uint (4 :: u8)))) (rat_of_int (uint (4 :: u8)) / 2))))) \<and>
         (\<exists>rnd. InterleavedGradientNoise (float_of_uint32 0) (float_of_uint32 0) = Some rnd \<and>
             fl rnd = rnd \<and> 0 \<le> rnd \<and> rnd < 1 \<and>
             fl (fsub 1 rnd) = fsub 1 rnd \<and> 0 \<le> fsub 1 rnd \<and> fsub 1 rnd \<le> 1 \<and>
             map_option (map uint) (ditherRGBA4444_px 0 0 100 100 100 100) =
               Some [max 0 (min 255 (uint (100 :: u8) + trunc0 (fsub (fmul rnd 16) (16 / 2)))),
                     max 0 (min 255 (uint (100 :: u8) + trunc0 (fsub (fmul (fsub 1 rnd) 16) (16 / 2)))),
                     max 0 (min 255 (uint (100 :: u8) + trunc0 (fsub (fmul rnd 16) (16 / 2)))),
                     max 0 (min 255 (uint (100 :: u8) + trunc0 (fsub (fmul rnd 16) (16 / 2))))] \<and>
             map_option (map uint) (ditherRGBx565_px 0 0 100 100 100 100) =
               Some [max 0 (min 255 (uint (100 :: u8) + trunc0 (fsub (fmul rnd 8) (8 / 2)))),
                     max 0 (min 255 (uint (100 :: u8) + trunc0 (fsub (fmul (fsub 1 rnd) 4) (4 / 2)))),
                     max 0 (min 255 (uint (100 :: u8) + trunc0 (fsub (fmul rnd 8) (8 / 2)))),
                     uint (100 :: u8)])"
proof -
  have h: "fl 1 = 1" "(0::rat) \<le> 1" "(1::rat) \<le> 1"
    "(4 :: u8) = 16 \<or> (4 :: u8) = 8 \<or> (4 :: u8) = 4"
    using fl_of_int [of 1] by simp_all
  show ?thesis by (rule noise_dither_truncates [OF h])
qed

text \<open>
  Claim C1 as stated fails: at the pixel \<open>(1, 0)\<close> the noise is \<open>2330831 / 2^22\<close>,
  about 0.5557; with step 16 the perturbation is about 0.891, which the code truncates
  to 0 where the specification's formula rounds it to 1.
\<close>

theorem noise_dither_rounds_counterexample:
  "InterleavedGradientNoise (float_of_uint32 1) (float_of_uint32 0) = Some (2330831 / 4194304) \<and>
   map_option uint (dither_channel 100 (2330831 / 4194304) 16 (16 div 2)) = Some 100 \<and>
   spec_noise_dither 100 (2330831 / 4194304) 16 = 101"
  by code_simp

text \<open>
  Claim C8. For every channel value and every bias of \<^verbatim>\<open>addNoise\<close> (every
  \<^verbatim>\<open>int8_t\<close>), the result is the exact integer sum clamped to \<open>[0, 255]\<close>: it
  saturates and never wraps. For every channel value and all finite \<^verbatim>\<open>float\<close> values
  \<open>m\<close> and \<open>r\<close>, \<^verbatim>\<open>ditherBayerValue\<close> returns the rounded value of the sum clamped
  to \<open>[0, 255]\<close>, and the conversion to \<^verbatim>\<open>uint8_t\<close> is in range.
\<close>

theorem quantizer_saturates:
  "uint (addNoise v noise) = max 0 (min 255 (uint v + sint noise)) \<and>
   0 \<le> uint (addNoise v noise) \<and> uint (addNoise v noise) \<le> 255 \<and>
   (\<exists>w. ditherBayerValue uv m r = Some w \<and>
        rat_of_int (uint w) = c_round (max 0 (min 255 (fadd (float_of_uint8 uv) (fmul r m)))))"
  using addNoise_saturates [of v noise] ditherBayerValue_saturates [of uv m r]
    uint8_range [of "addNoise v noise"] by blast

text \<open>
  Claim C9 does not hold of the program. A decoded image with one channel is not
  rejected: \<^verbatim>\<open>main\<close> skips both branches, hands the buffer
  \<^verbatim>\<open>image_output_32bit\<close> to the encoder as \<^verbatim>\<open>malloc\<close> returned it, prints
  \<^verbatim>\<open>Wrote\<close> and exits with status 0.
\<close>

theorem unsupported_channel_count_not_rejected:
  "main [''dither'', ''gray.png''] (\<lambda>path. Some (1, 1, 1, [128])) [17, 34, 51, 68] =
     Some \<lparr>exit_code = 0, stderr_text = [],
           stdout_text = ''Wrote '' @ [CHR 0x27] @ ''gray.png.dither.png'' @ [CHR 0x27, CHR 0x0A],
           png = Some (''gray.png.dither.png'', 1, 1, [17, 34, 51, 68])\<rparr>"
  by (simp add: main_def)

section \<open>BayerMap and DitherPipeline: the claims\<close>

text \<open>
  Claim C5. For \<open>n = 4\<close> and \<open>n = 8\<close>, and a buffer of at least \<open>n * n\<close> entries,
  \<^verbatim>\<open>computeBayerThresholdMap\<close> leaves in the first \<open>n * n\<close> entries exactly \<open>n * n\<close>
  values that are a permutation of \<open>k / (n * n) - 1/2\<close> for \<open>k = 0, ..., n * n - 1\<close>,
  each of them in \<open>[-1/2, 1/2)\<close>.
\<close>

theorem bayer_map_is_permutation:
  assumes "n = 4 \<or> n = 8" and "nat (n * n) \<le> length M"
  shows "\<exists>M'. computeBayerThresholdMap n M = Some M' \<and>
      length (take (nat (n * n)) M') = nat (n * n) \<and>
      mset (take (nat (n * n)) M') =
        mset (map (\<lambda>k. rat_of_nat k / rat_of_nat (nat (n * n)) - 1 / 2) [0..<nat (n * n)]) \<and>
      (\<forall>t \<in> set (take (nat (n * n)) M'). - (1 / 2) \<le> t \<and> t < 1 / 2)"
proof -
  define N where "N = nat (n * n)"
  define tile where "tile = (if n = 4 then bayer4 else bayer8)"
  define j :: int where "j = (if n = 4 then 4 else 6)"
  define g where "g = (\<lambda>x. fsub (fmul x (2 powi (- j))) (1 / 2))"
  have N: "N = (if n = 4 then 16 else 64)" using assms(1) by (auto simp add: N_def)
  have len: "length tile = N" unfolding tile_def N by (simp add: bayer4_def bayer8_def)
  have dv: "fdiv 1 (fl (rat_of_int (n * n))) = 2 powi (- j)"
    using assms(1) bayer_div by (auto simp add: j_def)
  have M1: "(if n = 4 then bayer4 @ drop N M
             else if n = 8 then bayer8 @ drop N M else M) = tile @ drop N M"
    using assms(1) by (auto simp add: tile_def)
  have "N \<le> length (tile @ drop N M)" using len by simp
  from fold_update_prefix [OF this, of "g"]
  have "fold (\<lambda>i M. M[i := g (M ! i)]) [0..<N] (tile @ drop N M) = map g tile @ drop N M"
    using len by simp
  then have run: "computeBayerThresholdMap n M = Some (map g tile @ drop N M)"
    using assms(2) unfolding computeBayerThresholdMap_def Let_def dv
    unfolding N_def [symmetric] unfolding M1 g_def
    by simp
  have tk: "take N (map g tile @ drop N M) = map g tile" using len by simp
  have "length (map g tile) = N \<and>
        mset (map g tile) = mset (map (\<lambda>k. rat_of_nat k / rat_of_nat N - 1 / 2) [0..<N]) \<and>
        (\<forall>t \<in> set (map g tile). - (1 / 2) \<le> t \<and> t < 1 / 2)"
  proof (cases "n = 4")
    case True
    then have p: "tile = bayer4" "j = 4" "N = 16" by (simp_all add: tile_def j_def N)
    have "rat_of_nat 16 = 2 powi 4" by simp
    from rescale_ranks [OF bayer4_ranks _ _ this] show ?thesis
      unfolding g_def p by simp
  next
    case False
    then have p: "tile = bayer8" "j = 6" "N = 64" by (simp_all add: tile_def j_def N)
    have "rat_of_nat 64 = 2 powi 6" by simp
    from rescale_ranks [OF bayer8_ranks _ _ this] show ?thesis
      unfolding g_def p by simp
  qed
  then show ?thesis
    unfolding N_def [symmetric] run using tk by simp
qed

text \<open>\<open>n = 4\<close> with a buffer of 16 zeros satisfies the hypotheses.\<close>

theorem bayer_map_is_permutation_witness:
  "\<exists>M'. computeBayerThresholdMap 4 (replicate 16 0) = Some M' \<and>
      length (take (nat (4 * 4)) M') = nat (4 * 4) \<and>
      mset (take (nat (4 * 4)) M') =
        mset (map (\<lambda>k. rat_of_nat k / rat_of_nat (nat (4 * 4)) - 1 / 2) [0..<nat (4 * 4)]) \<and>
      (\<forall>t \<in> set (take (nat (4 * 4)) M'). - (1 / 2) \<le> t \<and> t < 1 / 2)"
proof -
  have h: "(4::int) = 4 \<or> (4::int) = 8" "nat (4 * 4) \<le> length (replicate 16 (0::rat))"
    by simp_all
  show ?thesis by (rule bayer_map_is_permutation [OF h])
qed

text \<open>
  Claim C7. For every buffer of \<open>width * height\<close> pixels both dither loops return,
  and at every pixel \<open>(x, y)\<close>, with \<open>rnd\<close> the noise at \<open>(x, y)\<close>, every byte written is
  the channel value plus the truncated bias, clamped to \<open>[0, 255]\<close>: in the RGBA4444
  loop the bias of the channels 0, 2 and 3 is \<open>rnd * 16 - 8\<close> and that of channel 1
  (green) is \<open>(1 - rnd) * 16 - 8\<close>; in the RGB565 loop the bias of the channels 0 and 2
  is \<open>rnd * 8 - 4\<close>, that of channel 1 (green) is \<open>(1 - rnd) * 4 - 2\<close>, and channel 3
  is left as it was. The step of a channel is \<open>2 ^ (8 - bits)\<close> for its target bit
  depth, and all products and differences are taken in single precision.
\<close>

theorem green_channel_uses_inverted_noise:
  assumes "4 * unat width * unat height \<le> length data"
  shows "\<exists>out4 out5.
     ditherInterleavedGradientRGBA4444 data width height = Some out4 \<and>
     ditherInterleavedGradientRGBx565 data width height = Some out5 \<and>
     (\<forall>y < unat height. \<forall>x < unat width.
        \<exists>rnd. InterleavedGradientNoise (float_of_uint32 (of_nat x)) (float_of_uint32 (of_nat y)) = Some rnd \<and>
          (let i = 4 * (y * unat width + x) in
           map uint (take 4 (drop i out4)) =
             [max 0 (min 255 (uint (data ! i) +
                trunc0 (fsub (fmul rnd (2 ^ (8 - 4))) (2 ^ (8 - 4) / 2)))),
              max 0 (min 255 (uint (data ! (i + 1)) +
                trunc0 (fsub (fmul (fsub 1 rnd) (2 ^ (8 - 4))) (2 ^ (8 - 4) / 2)))),
              max 0 (min 255 (uint (data ! (i + 2)) +
                trunc0 (fsub (fmul rnd (2 ^ (8 - 4))) (2 ^ (8 - 4) / 2)))),
              max 0 (min 255 (uint (data ! (i + 3)) +
                trunc0 (fsub (fmul rnd (2 ^ (8 - 4))) (2 ^ (8 - 4) / 2))))] \<and>
           map uint (take 4 (drop i out5)) =
             [max 0 (min 255 (uint (data ! i) +
                trunc0 (fsub (fmul rnd (2 ^ (8 - 5))) (2 ^ (8 - 5) / 2)))),
              max 0 (min 255 (uint (data ! (i + 1)) +
                trunc0 (fsub (fmul (fsub 1 rnd) (2 ^ (8 - 6))) (2 ^ (8 - 6) / 2)))),
              max 0 (min 255 (uint (data ! (i + 2)) +
                trunc0 (fsub (fmul rnd (2 ^ (8 - 5))) (2 ^ (8 - 5) / 2)))),
              uint (data ! (i + 3))]))"
proof -
  define w where "w = unat width"
  define h where "h = unat height"
  note w_h_def = w_def h_def
  define R4 where "R4 = (\<lambda>x y (ds :: u8 list) (es :: u8 list).
     \<exists>rnd. InterleavedGradientNoise (float_of_uint32 x) (float_of_uint32 y) = Some rnd \<and>
        fl rnd = rnd \<and> 0 \<le> rnd \<and> rnd < 1 \<and>
        map uint es =
          [max 0 (min 255 (uint (ds ! 0) + trunc0 (fsub (fmul rnd 16) 8))),
           max 0 (min 255 (uint (ds ! 1) + trunc0 (fsub (fmul (fsub 1 rnd) 16) 8))),
           max 0 (min 255 (uint (ds ! 2) + trunc0 (fsub (fmul rnd 16) 8))),
           max 0 (min 255 (uint (ds ! 3) + trunc0 (fsub (fmul rnd 16) 8)))])"
  define R5 where "R5 = (\<lambda>x y (ds :: u8 list) (es :: u8 list).
     \<exists>rnd. InterleavedGradientNoise (float_of_uint32 x) (float_of_uint32 y) = Some rnd \<and>
        fl rnd = rnd \<and> 0 \<le> rnd \<and> rnd < 1 \<and>
        map uint es =
          [max 0 (min 255 (uint (ds ! 0) + trunc0 (fsub (fmul rnd 8) 4))),
           max 0 (min 255 (uint (ds ! 1) + trunc0 (fsub (fmul (fsub 1 rnd) 4) 2))),
           max 0 (min 255 (uint (ds ! 2) + trunc0 (fsub (fmul rnd 8) 4))),
           uint (ds ! 3)])"
  have px4: "\<And>x y d0 d1 d2 d3. \<exists>es. ditherRGBA4444_px x y d0 d1 d2 d3 = Some es \<and> length es = 4 \<and>
                  R4 x y [d0, d1, d2, d3] es"
    unfolding R4_def by (rule ditherRGBA4444_px_closed)
  have px5: "\<And>x y d0 d1 d2 d3. \<exists>es. ditherRGBx565_px x y d0 d1 d2 d3 = Some es \<and> length es = 4 \<and>
                  R5 x y [d0, d1, d2, d3] es"
    unfolding R5_def by (rule ditherRGBx565_px_closed)
  from ditherRGBA4444_rows_pixels [where R = R4, OF px4 assms, of 0] obtain out4 where
    o4: "ditherRGBA4444_rows width 0 h data = Some out4"
    and p4: "\<And>y x. y < h \<Longrightarrow> x < w \<Longrightarrow>
       R4 (of_nat x) (of_nat y) (take 4 (drop (4 * (y * w + x)) data)) (take 4 (drop (4 * (y * w + x)) out4))"
    unfolding w_h_def by auto
  from ditherRGBx565_rows_pixels [where R = R5, OF px5 assms, of 0] obtain out5 where
    o5: "ditherRGBx565_rows width 0 h data = Some out5"
    and p5: "\<And>y x. y < h \<Longrightarrow> x < w \<Longrightarrow>
       R5 (of_nat x) (of_nat y) (take 4 (drop (4 * (y * w + x)) data)) (take 4 (drop (4 * (y * w + x)) out5))"
    unfolding w_h_def by auto
  have steps: "(2 :: rat) ^ (8 - 4) = 16" "(2 :: rat) ^ (8 - 5) = 8" "(2 :: rat) ^ (8 - 6) = 4"
    "(16 / 2 :: rat) = 8" "(8 / 2 :: rat) = 4" "(4 / 2 :: rat) = 2"
    by simp_all
  have "\<exists>rnd. InterleavedGradientNoise (float_of_uint32 (of_nat x)) (float_of_uint32 (of_nat y)) = Some rnd \<and>
          (let i = 4 * (y * w + x) in
           map uint (take 4 (drop i out4)) =
             [max 0 (min 255 (uint (data ! i) + trunc0 (fsub (fmul rnd 16) 8))),
              max 0 (min 255 (uint (data ! (i + 1)) + trunc0 (fsub (fmul (fsub 1 rnd) 16) 8))),
              max 0 (min 255 (uint (data ! (i + 2)) + trunc0 (fsub (fmul rnd 16) 8))),
              max 0 (min 255 (uint (data ! (i + 3)) + trunc0 (fsub (fmul rnd 16) 8)))] \<and>
           map uint (take 4 (drop i out5)) =
             [max 0 (min 255 (uint (data ! i) + trunc0 (fsub (fmul rnd 8) 4))),
              max 0 (min 255 (uint (data ! (i + 1)) + trunc0 (fsub (fmul (fsub 1 rnd) 4) 2))),
              max 0 (min 255 (uint (data ! (i + 2)) + trunc0 (fsub (fmul rnd 8) 4))),
              uint (data ! (i + 3))])"
    if y: "y < h" and x: "x < w" for x y
  proof -
    define i where "i = 4 * (y * w + x)"
    have "y * w + x < h * w"
    proof -
      have "y * w + x < y * w + w" using x by simp
      also have "\<dots> = Suc y * w" by simp
      also have "\<dots> \<le> h * w" using y by (intro mult_le_mono1) simp
      finally show ?thesis .
    qed
    then have "i + 4 \<le> 4 * w * h" unfolding i_def by (simp add: algebra_simps)
    then have i: "i + 4 \<le> length data" using assms unfolding w_h_def by linarith
    have nth: "take 4 (drop i data) ! 0 = data ! i" "take 4 (drop i data) ! 1 = data ! (i + 1)"
      "take 4 (drop i data) ! 2 = data ! (i + 2)" "take 4 (drop i data) ! 3 = data ! (i + 3)"
      using i by simp_all
    from p4 [OF y x] obtain rnd where
      rnd: "InterleavedGradientNoise (float_of_uint32 (of_nat x)) (float_of_uint32 (of_nat y)) = Some rnd"
      and e4: "map uint (take 4 (drop i out4)) =
             [max 0 (min 255 (uint (data ! i) + trunc0 (fsub (fmul rnd 16) 8))),
              max 0 (min 255 (uint (data ! (i + 1)) + trunc0 (fsub (fmul (fsub 1 rnd) 16) 8))),
              max 0 (min 255 (uint (data ! (i + 2)) + trunc0 (fsub (fmul rnd 16) 8))),
              max 0 (min 255 (uint (data ! (i + 3)) + trunc0 (fsub (fmul rnd 16) 8)))]"
      unfolding R4_def i_def [symmetric] nth by (elim exE conjE)
    from p5 [OF y x] obtain rnd' where
      rnd': "InterleavedGradientNoise (float_of_uint32 (of_nat x)) (float_of_uint32 (of_nat y)) = Some rnd'"
      and e5: "map uint (take 4 (drop i out5)) =
             [max 0 (min 255 (uint (data ! i) + trunc0 (fsub (fmul rnd' 8) 4))),
              max 0 (min 255 (uint (data ! (i + 1)) + trunc0 (fsub (fmul (fsub 1 rnd') 4) 2))),
              max 0 (min 255 (uint (data ! (i + 2)) + trunc0 (fsub (fmul rnd' 8) 4))),
              uint (data ! (i + 3))]"
      unfolding R5_def i_def [symmetric] nth by (elim exE conjE)
    from rnd rnd' have same: "rnd' = rnd" by simp
    show ?thesis
      unfolding Let_def i_def [symmetric]
      by (rule exI [of _ rnd], intro conjI, rule rnd, rule e4, rule e5 [unfolded same])
  qed
  then show ?thesis
    unfolding ditherInterleavedGradientRGBA4444_def ditherInterleavedGradientRGBx565_def steps
      w_h_def [symmetric]
    using o4 o5 by blast
qed

text \<open>The 1x1 image \<open>(200, 100, 50, 255)\<close> satisfies the hypothesis.\<close>

theorem green_channel_uses_inverted_noise_witness:
  "\<exists>out4 out5.
     ditherInterleavedGradientRGBA4444 [200, 100, 50, 255] 1 1 = Some out4 \<and>
     ditherInterleavedGradientRGBx565 [200, 100, 50, 255] 1 1 = Some out5 \<and>
     (\<forall>y < unat (1 :: u32). \<forall>x < unat (1 :: u32).
        \<exists>rnd. InterleavedGradientNoise (float_of_uint32 (of_nat x)) (float_of_uint32 (of_nat y)) = Some rnd \<and>
          (let i = 4 * (y * unat (1 :: u32) + x) in
           map uint (take 4 (drop i out4)) =
             [max 0 (min 255 (uint ([200, 100, 50, 255 :: u8] ! i) +
                trunc0 (fsub (fmul rnd (2 ^ (8 - 4))) (2 ^ (8 - 4) / 2)))),
              max 0 (min 255 (uint ([200, 100, 50, 255 :: u8] ! (i + 1)) +
                trunc0 (fsub (fmul (fsub 1 rnd) (2 ^ (8 - 4))) (2 ^ (8 - 4) / 2)))),
              max 0 (min 255 (uint ([200, 100, 50, 255 :: u8] ! (i + 2)) +
                trunc0 (fsub (fmul rnd (2 ^ (8 - 4))) (2 ^ (8 - 4) / 2)))),
              max 0 (min 255 (uint ([200, 100, 50, 255 :: u8] ! (i + 3)) +
                trunc0 (fsub (fmul rnd (2 ^ (8 - 4))) (2 ^ (8 - 4) / 2))))] \<and>
           map uint (take 4 (drop i out5)) =
             [max 0 (min 255 (uint ([200, 100, 50, 255 :: u8] ! i) +
                trunc0 (fsub (fmul rnd (2 ^ (8 - 5))) (2 ^ (8 - 5) / 2)))),
              max 0 (min 255 (uint ([200, 100, 50, 255 :: u8] ! (i + 1)) +
                trunc0 (fsub (fmul (fsub 1 rnd) (2 ^ (8 - 6))) (2 ^ (8 - 6) / 2)))),
              max 0 (min 255 (uint ([200, 100, 50, 255 :: u8] ! (i + 2)) +
                trunc0 (fsub (fmul rnd (2 ^ (8 - 5))) (2 ^ (8 - 5) / 2)))),
              uint ([200, 100, 50, 255 :: u8] ! (i + 3))]))"
proof -
  have h: "4 * unat (1 :: u32) * unat (1 :: u32) \<le> length [200, 100, 50, 255 :: u8]" by simp
  show ?thesis by (rule green_channel_uses_inverted_noise [OF h])
qed

end
